theory Spec2Isabelle
  imports Main "HOL-Library.Word"
begin

unbundle bit_operations_syntax

section \<open>The byte source: \<^verbatim>\<open>std::ifstream\<close>\<close>

text \<open>
  \<^verbatim>\<open>AbxReader\<close> reads a binary file through a \<^verbatim>\<open>std::ifstream\<close>. The
  model keeps what the reader can observe of it: the bytes of the file, the get position,
  and the two state bits the code tests (\<^verbatim>\<open>eof()\<close> is \<open>eofbit\<close>;
  \<^verbatim>\<open>!stream.read(...)\<close> is \<open>fail()\<close>, that is \<open>failbit\<close>; \<open>badbit\<close> is
  never set on a regular file that stays readable and is left out).

  \<^verbatim>\<open>istream::read(buf, n)\<close> is an unformatted input function: its sentry sets
  \<open>failbit\<close> and extracts nothing when the stream is not \<open>good()\<close>; otherwise it
  extracts \<open>n\<close> characters, and when end-of-file comes first it stores what is left and
  sets \<open>eofbit\<close> and \<open>failbit\<close> together. A read that gets all of its \<open>n\<close>
  characters sets no bit, also when it consumes the last byte of the file.

  \<^verbatim>\<open>istream::seekg(off, std::ios::cur)\<close> first clears \<open>eofbit\<close>; unless
  \<open>fail()\<close>, it moves the position by \<open>off\<close>, and sets \<open>failbit\<close> when the
  target is before the start of the file. On a regular file a position beyond the end is
  accepted (the next read then meets end-of-file).
\<close>

type_synonym byte = "8 word"

record istream =
  data :: "byte list"
  pos :: nat
  eofbit :: bool
  failbit :: bool

definition open_stream :: "byte list \<Rightarrow> istream" where
  "open_stream file = \<lparr>data = file, pos = 0, eofbit = False, failbit = False\<rparr>"

definition eof :: "istream \<Rightarrow> bool" where
  "eof s = eofbit s"

definition istream_read :: "nat \<Rightarrow> istream \<Rightarrow> byte list option \<times> istream" where
  "istream_read n s =
     (if eofbit s \<or> failbit s then (None, s\<lparr>failbit := True\<rparr>)
      else if n \<le> length (data s) - pos s
        then (Some (take n (drop (pos s) (data s))), s\<lparr>pos := pos s + n\<rparr>)
        else (None, s\<lparr>pos := max (pos s) (length (data s)), eofbit := True, failbit := True\<rparr>))"

definition seekg_cur :: "int \<Rightarrow> istream \<Rightarrow> istream" where
  "seekg_cur off s =
     (let s1 = s\<lparr>eofbit := False\<rparr>
      in if failbit s1 then s1
         else if int (pos s1) + off < 0 then s1\<lparr>failbit := True\<rparr>
         else s1\<lparr>pos := nat (int (pos s1) + off)\<rparr>)"

section \<open>Errors\<close>

text \<open>
  The reader throws \<^verbatim>\<open>std::runtime_error\<close> from the primitive reads and
  \<^verbatim>\<open>AbxDecodeError\<close> from the decoder, each with its message.
  \<^verbatim>\<open>interned_strings[reference]\<close> is \<^verbatim>\<open>std::vector::operator[]\<close>, which
  checks nothing: an index outside the vector is undefined behaviour, which the model
  records as an outcome of its own instead of inventing a value or an exception.
\<close>

datatype error =
    RuntimeError string
  | AbxDecodeError string
  | UndefinedBehaviour string

section \<open>Primitive reads (big-endian)\<close>

text \<open>
  Each primitive reads the bytes into a host variable and byte-swaps it
  (\<^verbatim>\<open>__builtin_bswap16/32/64\<close>), so on the little-endian hosts the tool is built for
  the value is the big-endian reading of the bytes.
\<close>

definition be_nat :: "byte list \<Rightarrow> nat" where
  "be_nat bs = foldl (\<lambda>acc b. acc * 256 + unat b) 0 bs"

definition read_byte :: "istream \<Rightarrow> error + byte \<times> istream" where
  "read_byte s =
     (case istream_read 1 s of
        (None, _) \<Rightarrow> Inl (RuntimeError ''Could not read byte'')
      | (Some bs, s') \<Rightarrow> Inr (hd bs, s'))"

text \<open>\<^verbatim>\<open>int16_t read_short()\<close>: read its value with \<open>sint\<close>.\<close>

definition read_short :: "istream \<Rightarrow> error + 16 word \<times> istream" where
  "read_short s =
     (case istream_read 2 s of
        (None, _) \<Rightarrow> Inl (RuntimeError ''Could not read short'')
      | (Some bs, s') \<Rightarrow> Inr (word_of_nat (be_nat bs), s'))"

text \<open>\<^verbatim>\<open>uint16_t read_unsigned_short()\<close>: read its value with \<open>unat\<close>.\<close>

definition read_unsigned_short :: "istream \<Rightarrow> error + 16 word \<times> istream" where
  "read_unsigned_short s =
     (case istream_read 2 s of
        (None, _) \<Rightarrow> Inl (RuntimeError ''Could not read unsigned short'')
      | (Some bs, s') \<Rightarrow> Inr (word_of_nat (be_nat bs), s'))"

definition read_int :: "istream \<Rightarrow> error + 32 word \<times> istream" where
  "read_int s =
     (case istream_read 4 s of
        (None, _) \<Rightarrow> Inl (RuntimeError ''Could not read int'')
      | (Some bs, s') \<Rightarrow> Inr (word_of_nat (be_nat bs), s'))"

definition read_long :: "istream \<Rightarrow> error + 64 word \<times> istream" where
  "read_long s =
     (case istream_read 8 s of
        (None, _) \<Rightarrow> Inl (RuntimeError ''Could not read long'')
      | (Some bs, s') \<Rightarrow> Inr (word_of_nat (be_nat bs), s'))"

text \<open>
  \<^verbatim>\<open>read_float\<close> and \<^verbatim>\<open>read_double\<close> do not reinterpret the bytes as an IEEE
  value: they assign the byte-swapped \<^emph>\<open>integer\<close> (\<^verbatim>\<open>__builtin_bswap32\<close> returns
  \<^verbatim>\<open>uint32_t\<close>) to the \<^verbatim>\<open>float\<close>, which converts it numerically, rounding to
  the 24 (or 53) significant bits of the type, to nearest and ties to even. The result is
  a whole number, kept here as a \<open>nat\<close>.
\<close>

fun bit_length :: "nat \<Rightarrow> nat" where
  "bit_length n = (if n = 0 then 0 else Suc (bit_length (n div 2)))"

declare bit_length.simps [simp del]

definition round_to_bits :: "nat \<Rightarrow> nat \<Rightarrow> nat" where
  "round_to_bits p n =
     (if bit_length n \<le> p then n
      else let e = bit_length n - p; q = n div 2 ^ e; r = n mod 2 ^ e
           in if 2 ^ (e - 1) < r \<or> (r = 2 ^ (e - 1) \<and> odd q) then (q + 1) * 2 ^ e
              else q * 2 ^ e)"

definition read_float :: "istream \<Rightarrow> error + nat \<times> istream" where
  "read_float s =
     (case istream_read 4 s of
        (None, _) \<Rightarrow> Inl (RuntimeError ''Could not read float'')
      | (Some bs, s') \<Rightarrow> Inr (round_to_bits 24 (be_nat bs), s'))"

definition read_double :: "istream \<Rightarrow> error + nat \<times> istream" where
  "read_double s =
     (case istream_read 8 s of
        (None, _) \<Rightarrow> Inl (RuntimeError ''Could not read double'')
      | (Some bs, s') \<Rightarrow> Inr (round_to_bits 53 (be_nat bs), s'))"

text \<open>A \<^verbatim>\<open>std::string\<close> is a sequence of bytes; a byte and a \<open>char\<close> are the same 8 bits.\<close>

definition byte_to_char :: "byte \<Rightarrow> char" where
  "byte_to_char b =
     Char (bit b 0) (bit b 1) (bit b 2) (bit b 3) (bit b 4) (bit b 5) (bit b 6) (bit b 7)"

definition read_string_raw :: "istream \<Rightarrow> error + string \<times> istream" where
  "read_string_raw s =
     (case read_unsigned_short s of
        Inl e \<Rightarrow> Inl e
      | Inr (len, s1) \<Rightarrow>
          (case istream_read (unat len) s1 of
             (None, _) \<Rightarrow> Inl (RuntimeError ''Could not read string'')
           | (Some buffer, s2) \<Rightarrow> Inr (map byte_to_char buffer, s2)))"

section \<open>The string intern table\<close>

text \<open>
  \<^verbatim>\<open>read_interned_string\<close> works on the stream and on the member
  \<^verbatim>\<open>interned_strings\<close>, and returns both with the string. The index of
  \<^verbatim>\<open>interned_strings[reference]\<close> is the \<^verbatim>\<open>int16_t\<close> converted to
  \<^verbatim>\<open>size_t\<close>: a negative reference other than -1 becomes an index far beyond any
  vector, so the access is inside the vector exactly when \<open>0 \<le> reference < size\<close>.
\<close>

definition read_interned_string ::
  "istream \<Rightarrow> string list \<Rightarrow> error + string \<times> istream \<times> string list" where
  "read_interned_string s interned_strings =
     (case read_short s of
        Inl e \<Rightarrow> Inl e
      | Inr (reference, s1) \<Rightarrow>
          if sint reference = - 1 then
            (case read_string_raw s1 of
               Inl e \<Rightarrow> Inl e
             | Inr (val, s2) \<Rightarrow> Inr (val, s2, interned_strings @ [val]))
          else if 0 \<le> sint reference \<and> nat (sint reference) < length interned_strings
            then Inr (interned_strings ! nat (sint reference), s1, interned_strings)
            else Inl (UndefinedBehaviour ''interned_strings[reference] out of range''))"

section \<open>Textual values\<close>

definition digit_char :: "nat \<Rightarrow> char" where
  "digit_char d = ''0123456789abcdef'' ! d"

text \<open>The digits of a number in a base, most significant first, without padding.\<close>

fun digits :: "nat \<Rightarrow> nat \<Rightarrow> string" where
  "digits base n =
     (if base < 2 \<or> n < base then [digit_char n]
      else digits base (n div base) @ [digit_char (n mod base)])"

declare digits.simps [simp del]

text \<open>\<^verbatim>\<open>std::to_string\<close> of a signed integer.\<close>

definition to_string :: "int \<Rightarrow> string" where
  "to_string i = (if i < 0 then CHR ''-'' # digits 10 (nat (- i)) else digits 10 (nat i))"

text \<open>
  \<^verbatim>\<open>ss << std::hex << v\<close> for a signed \<^verbatim>\<open>v\<close> prints the two's complement bit
  pattern as an unsigned number, in lowercase.
\<close>

definition hex_string :: "'a::len word \<Rightarrow> string" where
  "hex_string w = digits 16 (unat w)"

text \<open>
  \<^verbatim>\<open>std::to_string\<close> of a \<^verbatim>\<open>float\<close> or \<^verbatim>\<open>double\<close> is \<^verbatim>\<open>%f\<close>: six
  decimals, all zero for the whole numbers that \<^verbatim>\<open>read_float\<close> and
  \<^verbatim>\<open>read_double\<close> return.
\<close>

definition to_string_floating :: "nat \<Rightarrow> string" where
  "to_string_floating n = digits 10 n @ ''.000000''"

text \<open>\<^verbatim>\<open>std::setw(2) << std::setfill('0')\<close>: pad on the left up to the width.\<close>

definition setw_setfill :: "nat \<Rightarrow> char \<Rightarrow> string \<Rightarrow> string" where
  "setw_setfill w c str = replicate (w - length str) c @ str"

text \<open>The loop \<^verbatim>\<open>for (auto byte : buffer) ss << std::hex << std::setw(2) << ...\<close>.\<close>

fun hex_encode :: "byte list \<Rightarrow> string" where
  "hex_encode [] = []"
| "hex_encode (byte # buffer) =
     setw_setfill 2 (CHR ''0'') (digits 16 (unat byte)) @ hex_encode buffer"

definition base64_chars :: string where
  "base64_chars = ''ABCDEFGHIJKLMNOPQRSTUVWXYZabcdefghijklmnopqrstuvwxyz0123456789+/''"

definition base64_triple :: "byte list \<Rightarrow> nat \<Rightarrow> 32 word" where
  "base64_triple dat i =
     (if i + 0 < length dat then push_bit 16 (ucast (dat ! i)) else 0) OR
     (if i + 1 < length dat then push_bit 8 (ucast (dat ! (i + 1))) else 0) OR
     (if i + 2 < length dat then ucast (dat ! (i + 2)) else 0)"

definition base64_group :: "byte list \<Rightarrow> nat \<Rightarrow> string" where
  "base64_group dat i =
     (let triple = base64_triple dat i
      in [base64_chars ! unat (drop_bit 18 triple AND 0x3F),
          base64_chars ! unat (drop_bit 12 triple AND 0x3F),
          if i + 1 < length dat then base64_chars ! unat (drop_bit 6 triple AND 0x3F)
          else CHR ''='',
          if i + 2 < length dat then base64_chars ! unat (triple AND 0x3F)
          else CHR ''=''])"

text \<open>The loop \<^verbatim>\<open>for (size_t i = 0; i < len; i += 3)\<close>, from index \<open>i\<close> on.\<close>

function base64_loop :: "byte list \<Rightarrow> nat \<Rightarrow> string \<Rightarrow> string" where
  "base64_loop dat i encoded =
     (if i < length dat then base64_loop dat (i + 3) (encoded @ base64_group dat i)
      else encoded)"
  by pat_completeness auto
termination
  by (relation "measure (\<lambda>(dat, i, encoded). length dat - i)") auto

declare base64_loop.simps [simp del]

definition base64_encode :: "byte list \<Rightarrow> string" where
  "base64_encode dat = base64_loop dat 0 []"

section \<open>The tree model\<close>

text \<open>
  Elements are shared through \<^verbatim>\<open>std::shared_ptr<XMLElement>\<close>: the element on the
  stack and the entry in its parent's \<^verbatim>\<open>children\<close> are one object, changed through
  either. The model keeps the objects in a store, a list indexed by address;
  \<^verbatim>\<open>std::make_shared\<close> appends a new object and returns its index, and a pointer is
  an index. \<^verbatim>\<open>attrib\<close> is an \<^verbatim>\<open>unordered_map\<close>: an association list with
  unique keys, of which only the mapping is meaningful, not the order.
\<close>

record XMLElement =
  tag :: string
  text_str :: string
  attrib :: "(string \<times> string) list"
  children :: "nat list"

definition new_XMLElement :: "string \<Rightarrow> XMLElement" where
  "new_XMLElement tag_name = \<lparr>tag = tag_name, text_str = [], attrib = [], children = []\<rparr>"

text \<open>\<^verbatim>\<open>attrib[key] = value\<close>.\<close>

fun attrib_assign :: "string \<Rightarrow> string \<Rightarrow> (string \<times> string) list \<Rightarrow> (string \<times> string) list" where
  "attrib_assign k v [] = [(k, v)]"
| "attrib_assign k v ((k', v') # kvs) =
     (if k' = k then (k, v) # kvs else (k', v') # attrib_assign k v kvs)"

text \<open>\<^verbatim>\<open>parent->add_child(child)\<close>, on the store.\<close>

definition add_child :: "nat \<Rightarrow> nat \<Rightarrow> XMLElement list \<Rightarrow> XMLElement list" where
  "add_child parent child h = h[parent := (h ! parent)\<lparr>children := children (h ! parent) @ [child]\<rparr>]"

section \<open>Token bytes\<close>

text \<open>\<^verbatim>\<open>enum class XmlType\<close> (the low nibble) and \<^verbatim>\<open>enum class DataType\<close> (the high nibble, \<^verbatim>\<open>n << 4\<close>).\<close>

abbreviation START_DOCUMENT :: byte where "START_DOCUMENT \<equiv> 0"
abbreviation END_DOCUMENT :: byte where "END_DOCUMENT \<equiv> 1"
abbreviation START_TAG :: byte where "START_TAG \<equiv> 2"
abbreviation END_TAG :: byte where "END_TAG \<equiv> 3"
abbreviation TEXT :: byte where "TEXT \<equiv> 4"
abbreviation ATTRIBUTE :: byte where "ATTRIBUTE \<equiv> 15"

abbreviation TYPE_NULL :: byte where "TYPE_NULL \<equiv> 0x10"
abbreviation TYPE_STRING :: byte where "TYPE_STRING \<equiv> 0x20"
abbreviation TYPE_STRING_INTERNED :: byte where "TYPE_STRING_INTERNED \<equiv> 0x30"
abbreviation TYPE_BYTES_HEX :: byte where "TYPE_BYTES_HEX \<equiv> 0x40"
abbreviation TYPE_BYTES_BASE64 :: byte where "TYPE_BYTES_BASE64 \<equiv> 0x50"
abbreviation TYPE_INT :: byte where "TYPE_INT \<equiv> 0x60"
abbreviation TYPE_INT_HEX :: byte where "TYPE_INT_HEX \<equiv> 0x70"
abbreviation TYPE_LONG :: byte where "TYPE_LONG \<equiv> 0x80"
abbreviation TYPE_LONG_HEX :: byte where "TYPE_LONG_HEX \<equiv> 0x90"
abbreviation TYPE_FLOAT :: byte where "TYPE_FLOAT \<equiv> 0xA0"
abbreviation TYPE_DOUBLE :: byte where "TYPE_DOUBLE \<equiv> 0xB0"
abbreviation TYPE_BOOLEAN_TRUE :: byte where "TYPE_BOOLEAN_TRUE \<equiv> 0xC0"
abbreviation TYPE_BOOLEAN_FALSE :: byte where "TYPE_BOOLEAN_FALSE \<equiv> 0xD0"

definition MAGIC :: "byte list" where
  "MAGIC = [0x41, 0x42, 0x58, 0x00]"

section \<open>Skipping the header extension\<close>

text \<open>The \<^verbatim>\<open>switch\<close> of \<^verbatim>\<open>skip_header_extension\<close>, after the token byte.\<close>

definition skip_extension_data :: "byte \<Rightarrow> istream \<Rightarrow> error + istream" where
  "skip_extension_data token s =
     (let data_type = token AND 0xf0
      in if data_type = TYPE_NULL then Inr s
         else if data_type = TYPE_INT then
           (case read_int s of Inl e \<Rightarrow> Inl e | Inr (_, s') \<Rightarrow> Inr s')
         else if data_type = TYPE_LONG then
           (case read_long s of Inl e \<Rightarrow> Inl e | Inr (_, s') \<Rightarrow> Inr s')
         else if data_type = TYPE_FLOAT then
           (case read_float s of Inl e \<Rightarrow> Inl e | Inr (_, s') \<Rightarrow> Inr s')
         else if data_type = TYPE_DOUBLE then
           (case read_double s of Inl e \<Rightarrow> Inl e | Inr (_, s') \<Rightarrow> Inr s')
         else if data_type = TYPE_STRING \<or> data_type = TYPE_STRING_INTERNED then
           (case read_string_raw s of Inl e \<Rightarrow> Inl e | Inr (_, s') \<Rightarrow> Inr s')
         else if data_type = TYPE_BYTES_HEX \<or> data_type = TYPE_BYTES_BASE64 then
           (case read_short s of
              Inl e \<Rightarrow> Inl e
            | Inr (len, s') \<Rightarrow> Inr (seekg_cur (int (unat len)) s'))
         else if 0 < unat (token AND 0x0f) then Inr (seekg_cur (int (unat (token AND 0x0f))) s)
         else Inr s)"

function skip_header_extension :: "istream \<Rightarrow> error + istream" where
  "skip_header_extension s =
     (case read_byte s of
        Inl e \<Rightarrow> Inl e
      | Inr (token, s1) \<Rightarrow>
          if token AND 0x0f = START_DOCUMENT then Inr (seekg_cur (- 1) s1)
          else (case skip_extension_data token s1 of
                  Inl e \<Rightarrow> Inl e
                | Inr s2 \<Rightarrow> skip_header_extension s2))"
  by pat_completeness auto

section \<open>The document decoder\<close>

text \<open>
  The state of \<^verbatim>\<open>AbxReader::read\<close>: the members \<^verbatim>\<open>stream\<close> and
  \<^verbatim>\<open>interned_strings\<close>, the store of the elements made so far, and the locals of
  \<^verbatim>\<open>read\<close>. \<^verbatim>\<open>element_stack\<close> is a vector used as a stack: \<open>last\<close> is
  \<^verbatim>\<open>back()\<close>, \<open>butlast\<close> is \<^verbatim>\<open>pop_back()\<close>, and the list read from its head
  is the stack read from the bottom. \<^verbatim>\<open>root\<close> is a null pointer until assigned.
\<close>

record reader_state =
  stream :: istream
  interned_strings :: "string list"
  store :: "XMLElement list"
  document_opened :: bool
  root_closed :: bool
  element_stack :: "nat list"
  root :: "nat option"

datatype loop_ctl = Continue reader_state | Break reader_state

text \<open>
  \<^verbatim>\<open>::isspace\<close> in the "C" locale (the program never calls \<^verbatim>\<open>setlocale\<close>):
  space, \<^verbatim>\<open>\t \n \v \f \r\<close>.
\<close>

definition isspace :: "char \<Rightarrow> bool" where
  "isspace c = (of_char c = (32::nat) \<or> (9 \<le> (of_char c :: nat) \<and> (of_char c :: nat) \<le> 13))"

text \<open>
  The condition \<^verbatim>\<open>element_stack.empty() || (is_multi_root && element_stack.size() == 1)\<close>
  of the end-document, end-tag and attribute branches.
\<close>

definition no_open_element :: "bool \<Rightarrow> nat list \<Rightarrow> bool" where
  "no_open_element is_multi_root stack = (stack = [] \<or> (is_multi_root \<and> length stack = 1))"

definition on_start_document :: "byte \<Rightarrow> reader_state \<Rightarrow> error + loop_ctl" where
  "on_start_document data_type st =
     (if data_type \<noteq> TYPE_NULL then Inl (AbxDecodeError ''Invalid START_DOCUMENT data type'')
      else Inr (Continue (st\<lparr>document_opened := True\<rparr>)))"

definition on_end_document :: "bool \<Rightarrow> byte \<Rightarrow> reader_state \<Rightarrow> error + loop_ctl" where
  "on_end_document is_multi_root data_type st =
     (if data_type \<noteq> TYPE_NULL then Inl (AbxDecodeError ''Invalid END_DOCUMENT data type'')
      else if \<not> no_open_element is_multi_root (element_stack st)
        then Inl (AbxDecodeError ''Unclosed elements at END_DOCUMENT'')
      else Inr (Break st))"

definition on_start_tag :: "byte \<Rightarrow> reader_state \<Rightarrow> error + loop_ctl" where
  "on_start_tag data_type st =
     (if data_type \<noteq> TYPE_STRING_INTERNED then Inl (AbxDecodeError ''Invalid START_TAG data type'')
      else case read_interned_string (stream st) (interned_strings st) of
        Inl e \<Rightarrow> Inl e
      | Inr (tag_name, s', tbl') \<Rightarrow>
          (let element = length (store st);
               st1 = st\<lparr>stream := s', interned_strings := tbl',
                        store := store st @ [new_XMLElement tag_name]\<rparr>
           in if element_stack st = []
              then Inr (Continue (st1\<lparr>root := Some element, element_stack := [element]\<rparr>))
              else Inr (Continue (st1\<lparr>store := add_child (last (element_stack st)) element (store st1),
                                         element_stack := element_stack st @ [element]\<rparr>))))"

definition on_end_tag :: "bool \<Rightarrow> byte \<Rightarrow> reader_state \<Rightarrow> error + loop_ctl" where
  "on_end_tag is_multi_root data_type st =
     (if data_type \<noteq> TYPE_STRING_INTERNED then Inl (AbxDecodeError ''Invalid END_TAG data type'')
      else if no_open_element is_multi_root (element_stack st)
        then Inl (AbxDecodeError ''Unexpected END_TAG'')
      else case read_interned_string (stream st) (interned_strings st) of
        Inl e \<Rightarrow> Inl e
      | Inr (tag_name, s', tbl') \<Rightarrow>
          if tag (store st ! last (element_stack st)) \<noteq> tag_name
          then Inl (AbxDecodeError ''Mismatched END_TAG'')
          else (let st1 = st\<lparr>stream := s', interned_strings := tbl',
                            element_stack := butlast (element_stack st)\<rparr>
                in if element_stack st1 = [] then Inr (Continue (st1\<lparr>root_closed := True\<rparr>))
                   else Inr (Continue st1)))"

definition on_text :: "reader_state \<Rightarrow> error + loop_ctl" where
  "on_text st =
     (case read_string_raw (stream st) of
        Inl e \<Rightarrow> Inl e
      | Inr (val, s') \<Rightarrow>
          if list_all isspace val then Inr (Continue (st\<lparr>stream := s'\<rparr>))
          else if element_stack st = [] then Inl (AbxDecodeError ''Unexpected TEXT outside of element'')
          else (let back = last (element_stack st); el = store st ! back
                in Inr (Continue (st\<lparr>stream := s',
                      store := (store st)[back := el\<lparr>text_str :=
                        (if text_str el = [] then val else text_str el @ val)\<rparr>]\<rparr>))))"

text \<open>The byte runs of the two blob encodings: \<^verbatim>\<open>uint16_t length = read_short()\<close>, then the bytes.\<close>

definition read_bytes :: "istream \<Rightarrow> error + byte list \<times> istream" where
  "read_bytes s =
     (case read_short s of
        Inl e \<Rightarrow> Inl e
      | Inr (len, s1) \<Rightarrow>
          (case istream_read (unat len) s1 of
             (None, _) \<Rightarrow> Inl (RuntimeError ''Could not read bytes'')
           | (Some buffer, s2) \<Rightarrow> Inr (buffer, s2)))"

text \<open>The \<^verbatim>\<open>switch\<close> over the data type of an attribute token.\<close>

definition attribute_value ::
  "byte \<Rightarrow> istream \<Rightarrow> string list \<Rightarrow> error + string \<times> istream \<times> string list" where
  "attribute_value data_type s tbl =
     (if data_type = TYPE_NULL then Inr (''null'', s, tbl)
      else if data_type = TYPE_BOOLEAN_TRUE then Inr (''true'', s, tbl)
      else if data_type = TYPE_BOOLEAN_FALSE then Inr (''false'', s, tbl)
      else if data_type = TYPE_INT then
        (case read_int s of Inl e \<Rightarrow> Inl e | Inr (v, s') \<Rightarrow> Inr (to_string (sint v), s', tbl))
      else if data_type = TYPE_INT_HEX then
        (case read_int s of Inl e \<Rightarrow> Inl e | Inr (v, s') \<Rightarrow> Inr (hex_string v, s', tbl))
      else if data_type = TYPE_LONG then
        (case read_long s of Inl e \<Rightarrow> Inl e | Inr (v, s') \<Rightarrow> Inr (to_string (sint v), s', tbl))
      else if data_type = TYPE_LONG_HEX then
        (case read_long s of Inl e \<Rightarrow> Inl e | Inr (v, s') \<Rightarrow> Inr (hex_string v, s', tbl))
      else if data_type = TYPE_FLOAT then
        (case read_float s of Inl e \<Rightarrow> Inl e | Inr (v, s') \<Rightarrow> Inr (to_string_floating v, s', tbl))
      else if data_type = TYPE_DOUBLE then
        (case read_double s of Inl e \<Rightarrow> Inl e | Inr (v, s') \<Rightarrow> Inr (to_string_floating v, s', tbl))
      else if data_type = TYPE_STRING then
        (case read_string_raw s of Inl e \<Rightarrow> Inl e | Inr (v, s') \<Rightarrow> Inr (v, s', tbl))
      else if data_type = TYPE_STRING_INTERNED then read_interned_string s tbl
      else if data_type = TYPE_BYTES_HEX then
        (case read_bytes s of Inl e \<Rightarrow> Inl e | Inr (buffer, s') \<Rightarrow> Inr (hex_encode buffer, s', tbl))
      else if data_type = TYPE_BYTES_BASE64 then
        (case read_bytes s of Inl e \<Rightarrow> Inl e | Inr (buffer, s') \<Rightarrow> Inr (base64_encode buffer, s', tbl))
      else Inl (AbxDecodeError ''Unexpected attribute data type''))"

definition on_attribute :: "bool \<Rightarrow> byte \<Rightarrow> reader_state \<Rightarrow> error + loop_ctl" where
  "on_attribute is_multi_root data_type st =
     (if no_open_element is_multi_root (element_stack st)
        then Inl (AbxDecodeError ''Unexpected ATTRIBUTE'')
      else case read_interned_string (stream st) (interned_strings st) of
        Inl e \<Rightarrow> Inl e
      | Inr (attribute_name, s1, tbl1) \<Rightarrow>
          (case attribute_value data_type s1 tbl1 of
             Inl e \<Rightarrow> Inl e
           | Inr (val, s2, tbl2) \<Rightarrow>
               (let back = last (element_stack st); el = store st ! back
                in Inr (Continue (st\<lparr>stream := s2, interned_strings := tbl2,
                      store := (store st)[back := el\<lparr>attrib :=
                        attrib_assign attribute_name val (attrib el)\<rparr>]\<rparr>)))))"

text \<open>The final \<^verbatim>\<open>else\<close>: "Try to skip unknown token types".\<close>

definition on_unknown :: "byte \<Rightarrow> reader_state \<Rightarrow> error + loop_ctl" where
  "on_unknown data_type st =
     (if data_type \<noteq> 0 then
        (if data_type = TYPE_INT then
           (case read_int (stream st) of
              Inl e \<Rightarrow> Inl e
            | Inr (_, s') \<Rightarrow> Inr (Continue (st\<lparr>stream := s'\<rparr>)))
         else if data_type = TYPE_STRING \<or> data_type = TYPE_STRING_INTERNED then
           (case read_string_raw (stream st) of
              Inl e \<Rightarrow> Inl e
            | Inr (_, s') \<Rightarrow> Inr (Continue (st\<lparr>stream := s'\<rparr>)))
         else Inl (AbxDecodeError ''Unexpected XML type''))
      else Inr (Continue st))"

text \<open>The body of the loop after the token byte is read: the chain of \<^verbatim>\<open>if\<close>s over \<^verbatim>\<open>xml_type\<close>.\<close>

definition process_token :: "bool \<Rightarrow> byte \<Rightarrow> reader_state \<Rightarrow> error + loop_ctl" where
  "process_token is_multi_root token st =
     (let xml_type = token AND 0x0f; data_type = token AND 0xf0
      in if xml_type = START_DOCUMENT then on_start_document data_type st
         else if xml_type = END_DOCUMENT then on_end_document is_multi_root data_type st
         else if xml_type = START_TAG then on_start_tag data_type st
         else if xml_type = END_TAG then on_end_tag is_multi_root data_type st
         else if xml_type = TEXT then on_text st
         else if xml_type = ATTRIBUTE then on_attribute is_multi_root data_type st
         else on_unknown data_type st)"

text \<open>One turn of \<^verbatim>\<open>while (true)\<close>: the \<^verbatim>\<open>eof()\<close> test, the token byte, the token.\<close>

definition read_iteration :: "bool \<Rightarrow> reader_state \<Rightarrow> error + loop_ctl" where
  "read_iteration is_multi_root st =
     (if eof (stream st) then Inr (Break st)
      else case read_byte (stream st) of
        Inl e \<Rightarrow> Inl e
      | Inr (token, s1) \<Rightarrow> process_token is_multi_root token (st\<lparr>stream := s1\<rparr>))"

function read_loop :: "bool \<Rightarrow> reader_state \<Rightarrow> error + reader_state" where
  "read_loop is_multi_root st =
     (case read_iteration is_multi_root st of
        Inl e \<Rightarrow> Inl e
      | Inr (Break st') \<Rightarrow> Inr st'
      | Inr (Continue st') \<Rightarrow> read_loop is_multi_root st')"
  by pat_completeness auto

text \<open>The state at the head of the loop, for the stream left by the header skipper.\<close>

definition init_state :: "bool \<Rightarrow> istream \<Rightarrow> reader_state" where
  "init_state is_multi_root s =
     (let st = \<lparr>stream = s, interned_strings = [], store = [], document_opened = True,
                root_closed = False, element_stack = [], root = None\<rparr>
      in if is_multi_root
         then st\<lparr>store := [new_XMLElement ''root''], root := Some 0, element_stack := [0]\<rparr>
         else st)"

text \<open>
  \<^verbatim>\<open>AbxReader(filename).read(is_multi_root)\<close> on a file that opens, given by its bytes.
  The result is the returned pointer with the store it points into.
\<close>

definition read_prologue :: "byte list \<Rightarrow> error + istream" where
  "read_prologue file =
     (case istream_read 4 (open_stream file) of
        (None, _) \<Rightarrow> Inl (AbxDecodeError ''Invalid magic number'')
      | (Some magic_check, s1) \<Rightarrow>
          if magic_check \<noteq> MAGIC then Inl (AbxDecodeError ''Invalid magic number'')
          else skip_header_extension s1)"

definition read :: "bool \<Rightarrow> byte list \<Rightarrow> error + nat \<times> XMLElement list" where
  "read is_multi_root file =
     (case read_prologue file of
        Inl e \<Rightarrow> Inl e
      | Inr s \<Rightarrow>
          (case read_loop is_multi_root (init_state is_multi_root s) of
             Inl e \<Rightarrow> Inl e
           | Inr st \<Rightarrow>
               (case root st of
                  None \<Rightarrow> Inl (AbxDecodeError ''No root element found'')
                | Some r \<Rightarrow> Inr (r, store st))))"

section \<open>The encodings as the specification words them\<close>

text \<open>
  The specification asks for "standard base64 alphabet with \<open>=\<close> padding, computed over
  3-byte groups, matching RFC 4648 with padding". RFC 4648, section 4: a 24-bit group of
  three bytes is read as four 6-bit numbers, most significant first, each the index of a
  character of the alphabet of its Table 1; a final group of one byte is padded with four
  zero bits to two 6-bit numbers and written with \<open>==\<close>, one of two bytes with two zero
  bits to three 6-bit numbers and written with \<open>=\<close>.
\<close>

definition rfc4648_alphabet :: "nat \<Rightarrow> char" where
  "rfc4648_alphabet v =
     (if v < 26 then char_of (of_char (CHR ''A'') + v)
      else if v < 52 then char_of (of_char (CHR ''a'') + (v - 26))
      else if v < 62 then char_of (of_char (CHR ''0'') + (v - 52))
      else if v = 62 then CHR ''+'' else CHR ''/'')"

text \<open>The \<open>k\<close> 6-bit numbers of \<open>n\<close>, most significant first, as characters.\<close>

definition sextets :: "nat \<Rightarrow> nat \<Rightarrow> string" where
  "sextets k n = map (\<lambda>j. rfc4648_alphabet (n div 64 ^ (k - 1 - j) mod 64)) [0..<k]"

fun rfc4648_base64 :: "byte list \<Rightarrow> string" where
  "rfc4648_base64 (a # b # c # rest) =
     sextets 4 (unat a * 65536 + unat b * 256 + unat c) @ rfc4648_base64 rest"
| "rfc4648_base64 [a, b] = sextets 3 ((unat a * 256 + unat b) * 4) @ ''=''"
| "rfc4648_base64 [a] = sextets 2 (unat a * 16) @ ''==''"
| "rfc4648_base64 [] = []"

text \<open>
  "Lowercase hex pairs, zero-padded per byte, no separators": two digits for every byte,
  the high nibble first.
\<close>

definition lower_hex_digit :: "nat \<Rightarrow> char" where
  "lower_hex_digit d =
     (if d < 10 then char_of (of_char (CHR ''0'') + d) else char_of (of_char (CHR ''a'') + (d - 10)))"

definition hex_pair :: "byte \<Rightarrow> string" where
  "hex_pair b = [lower_hex_digit (unat b div 16), lower_hex_digit (unat b mod 16)]"

section \<open>Progress of the stream, and termination of the two loops\<close>

text \<open>
  Every read that succeeds leaves the file's bytes alone, moves the position forward and
  leaves both state bits clear. Both loops read at least the token byte in every turn,
  so they stop at the end of the file at the latest.
\<close>

lemma istream_read_Some:
  "istream_read n s = (Some bs, s') \<Longrightarrow>
     data s' = data s \<and> pos s' = pos s + n \<and> n \<le> length (data s) - pos s \<and>
     \<not> eofbit s \<and> \<not> failbit s \<and> \<not> eofbit s' \<and> \<not> failbit s' \<and>
     bs = take n (drop (pos s) (data s))"
  by (auto simp: istream_read_def split: if_splits)

lemma read_byte_Inr:
  "read_byte s = Inr (b, s') \<Longrightarrow>
     data s' = data s \<and> pos s' = pos s + 1 \<and> pos s < length (data s) \<and>
     \<not> eofbit s \<and> \<not> failbit s \<and> \<not> eofbit s' \<and> \<not> failbit s' \<and> b = data s ! pos s"
  by (auto simp: read_byte_def hd_drop_conv_nth take_Suc split: prod.splits option.splits dest!: istream_read_Some)

definition advanced :: "istream \<Rightarrow> istream \<Rightarrow> bool" where
  "advanced s s' \<longleftrightarrow> data s' = data s \<and> pos s \<le> pos s' \<and> \<not> eofbit s' \<and> \<not> failbit s'"

lemma advanced_trans: "advanced s s' \<Longrightarrow> advanced s' s'' \<Longrightarrow> advanced s s''"
  by (auto simp: advanced_def)

lemma istream_read_advanced: "istream_read n s = (Some bs, s') \<Longrightarrow> advanced s s'"
  by (auto simp: advanced_def dest!: istream_read_Some)

lemma read_short_advanced: "read_short s = Inr (v, s') \<Longrightarrow> advanced s s'"
  by (auto simp: read_short_def split: prod.splits option.splits dest!: istream_read_advanced)
lemma read_unsigned_short_advanced: "read_unsigned_short s = Inr (v, s') \<Longrightarrow> advanced s s'"
  by (auto simp: read_unsigned_short_def split: prod.splits option.splits dest!: istream_read_advanced)
lemma read_int_advanced: "read_int s = Inr (v, s') \<Longrightarrow> advanced s s'"
  by (auto simp: read_int_def split: prod.splits option.splits dest!: istream_read_advanced)
lemma read_long_advanced: "read_long s = Inr (v, s') \<Longrightarrow> advanced s s'"
  by (auto simp: read_long_def split: prod.splits option.splits dest!: istream_read_advanced)
lemma read_float_advanced: "read_float s = Inr (v, s') \<Longrightarrow> advanced s s'"
  by (auto simp: read_float_def split: prod.splits option.splits dest!: istream_read_advanced)
lemma read_double_advanced: "read_double s = Inr (v, s') \<Longrightarrow> advanced s s'"
  by (auto simp: read_double_def split: prod.splits option.splits dest!: istream_read_advanced)
lemma read_string_raw_advanced: "read_string_raw s = Inr (v, s') \<Longrightarrow> advanced s s'"
  by (auto simp: read_string_raw_def split: sum.splits prod.splits option.splits
      dest!: istream_read_advanced read_unsigned_short_advanced intro: advanced_trans)
lemma read_bytes_advanced: "read_bytes s = Inr (v, s') \<Longrightarrow> advanced s s'"
  by (auto simp: read_bytes_def split: sum.splits prod.splits option.splits
      dest!: istream_read_advanced read_short_advanced intro: advanced_trans)
lemma read_interned_string_advanced: "read_interned_string s tbl = Inr (v, s', tbl') \<Longrightarrow> advanced s s'"
  by (auto simp: read_interned_string_def split: sum.splits prod.splits if_splits
      dest!: read_short_advanced read_string_raw_advanced intro: advanced_trans)

lemma seekg_cur_advanced:
  "\<not> failbit s \<Longrightarrow> 0 \<le> off \<Longrightarrow> advanced s (seekg_cur off s)"
  by (auto simp: seekg_cur_def advanced_def Let_def)

lemma advanced_refl: "\<not> failbit s \<Longrightarrow> \<not> eofbit s \<Longrightarrow> advanced s s"
  by (simp add: advanced_def)

lemma advanced_seekg:
  "advanced s s1 \<Longrightarrow> 0 \<le> off \<Longrightarrow> advanced s (seekg_cur off s1)"
  by (auto simp: seekg_cur_def advanced_def Let_def)

lemma skip_extension_data_advanced:
  "\<not> failbit s \<Longrightarrow> \<not> eofbit s \<Longrightarrow> skip_extension_data token s = Inr s' \<Longrightarrow> advanced s s'"
  unfolding skip_extension_data_def Let_def
  by (auto split: if_splits sum.splits prod.splits
      dest!: read_int_advanced read_long_advanced read_float_advanced read_double_advanced
        read_string_raw_advanced read_short_advanced
      intro: advanced_refl advanced_seekg)

lemma skip_header_extension_termination:
  assumes "read_byte s = Inr (token, s1)" "skip_extension_data token s1 = Inr s2"
  shows "length (data s2) - pos s2 < length (data s) - pos s"
proof -
  from assms(1) have a: "data s1 = data s" "pos s1 = pos s + 1" "pos s < length (data s)"
    "\<not> eofbit s1" "\<not> failbit s1"
    by (auto dest!: read_byte_Inr)
  from skip_extension_data_advanced [OF a(5) a(4) assms(2)]
  have "data s2 = data s1" "pos s1 \<le> pos s2" by (auto simp: advanced_def)
  with a show ?thesis by simp
qed

termination skip_header_extension
  by (relation "measure (\<lambda>s. length (data s) - pos s)")
    (auto dest: skip_header_extension_termination)

declare skip_header_extension.simps [simp del]

lemma on_start_document_advanced:
  "on_start_document dt st = Inr (Continue st') \<Longrightarrow> stream st' = stream st"
  by (auto simp: on_start_document_def split: if_splits)

lemma on_start_tag_advanced:
  "on_start_tag dt st = Inr (Continue st') \<Longrightarrow> advanced (stream st) (stream st')"
  by (auto simp: on_start_tag_def Let_def split: if_splits sum.splits prod.splits
      dest!: read_interned_string_advanced)

lemma on_end_tag_advanced:
  "on_end_tag mr dt st = Inr (Continue st') \<Longrightarrow> advanced (stream st) (stream st')"
  by (auto simp: on_end_tag_def Let_def split: if_splits sum.splits prod.splits
      dest!: read_interned_string_advanced)

lemma on_text_advanced:
  "on_text st = Inr (Continue st') \<Longrightarrow> advanced (stream st) (stream st')"
  by (auto simp: on_text_def Let_def split: if_splits sum.splits prod.splits
      dest!: read_string_raw_advanced)

lemma attribute_value_advanced:
  "\<not> failbit s \<Longrightarrow> \<not> eofbit s \<Longrightarrow> attribute_value dt s tbl = Inr (v, s', tbl') \<Longrightarrow> advanced s s'"
  unfolding attribute_value_def
  by (auto split: if_splits sum.splits prod.splits
      dest!: read_int_advanced read_long_advanced read_float_advanced read_double_advanced
        read_string_raw_advanced read_bytes_advanced read_interned_string_advanced
      intro: advanced_refl)

lemma on_attribute_advanced:
  "on_attribute mr dt st = Inr (Continue st') \<Longrightarrow> advanced (stream st) (stream st')"
  unfolding on_attribute_def Let_def
  apply (simp split: if_splits sum.splits prod.splits)
  apply clarify
  apply (frule read_interned_string_advanced)
  apply (drule attribute_value_advanced [rotated 2])
    apply (auto simp: advanced_def)
  done

lemma on_unknown_advanced:
  "on_unknown dt st = Inr (Continue st') \<Longrightarrow> stream st' = stream st \<or> advanced (stream st) (stream st')"
  by (auto simp: on_unknown_def Let_def split: if_splits sum.splits prod.splits
      dest!: read_string_raw_advanced read_int_advanced)

lemma process_token_advanced:
  "process_token mr token st = Inr (Continue st') \<Longrightarrow>
     stream st' = stream st \<or> advanced (stream st) (stream st')"
  unfolding process_token_def Let_def
  by (auto split: if_splits simp: on_end_document_def
      dest: on_start_document_advanced on_start_tag_advanced on_end_tag_advanced
        on_text_advanced on_attribute_advanced on_unknown_advanced)

lemma read_iteration_Continue:
  assumes "read_iteration mr st = Inr (Continue st')"
  shows "data (stream st') = data (stream st) \<and> pos (stream st) < pos (stream st') \<and>
         pos (stream st) < length (data (stream st)) \<and>
         \<not> eofbit (stream st') \<and> \<not> failbit (stream st')"
proof -
  from assms obtain token s1 where
    rb: "read_byte (stream st) = Inr (token, s1)" and
    pt: "process_token mr token (st\<lparr>stream := s1\<rparr>) = Inr (Continue st')"
    by (auto simp: read_iteration_def split: if_splits sum.splits)
  from rb have a: "data s1 = data (stream st)" "pos s1 = pos (stream st) + 1"
    "pos (stream st) < length (data (stream st))" "\<not> eofbit s1" "\<not> failbit s1"
    by (auto dest!: read_byte_Inr)
  from process_token_advanced [OF pt]
  have "stream st' = s1 \<or> advanced s1 (stream st')" by simp
  with a show ?thesis by (auto simp: advanced_def)
qed

termination read_loop
  by (relation "measure (\<lambda>(mr, st). length (data (stream st)) - pos (stream st))")
    (auto dest!: read_iteration_Continue)

declare read_loop.simps [simp del]

section \<open>The byte-run encodings\<close>

lemma alphabet_table: "v < 64 \<Longrightarrow> base64_chars ! v = rfc4648_alphabet v"
proof -
  have "\<forall>v \<in> set [0..<64]. base64_chars ! v = rfc4648_alphabet v"
    by code_simp
  then show "v < 64 \<Longrightarrow> base64_chars ! v = rfc4648_alphabet v" by simp
qed

lemma triple_or_add:
  fixes a b c :: byte
  shows "push_bit 16 (ucast a) OR push_bit 8 (ucast b) OR (ucast c :: 32 word) =
         push_bit 16 (ucast a) + (push_bit 8 (ucast b) + ucast c)"
proof -
  have 1: "push_bit 8 (ucast b) AND (ucast c :: 32 word) = 0"
    by (rule bit_eqI) (auto simp: bit_simps dest: bit_imp_le_length)
  have 2: "push_bit 16 (ucast a) AND (push_bit 8 (ucast b) OR (ucast c :: 32 word)) = 0"
    by (rule bit_eqI) (auto simp: bit_simps dest: bit_imp_le_length)
  show ?thesis
    by (simp add: disjunctive_add_eq_or 1 2)
qed

lemma unat_shifted_byte:
  fixes a :: byte
  assumes "k \<le> 16"
  shows "unat (push_bit k (ucast a :: 32 word)) = unat a * 2 ^ k"
proof -
  have la: "unat a < 2 ^ 8"
    using unsigned_less [of a] by simp
  have "unat a * 2 ^ k < 2 ^ 8 * 2 ^ k"
    using la by simp
  also have "\<dots> = (2::nat) ^ (8 + k)"
    by (simp add: power_add)
  also have "\<dots> \<le> (2::nat) ^ 32"
    using assms by (intro power_increasing) simp_all
  finally have lk: "unat a * 2 ^ k < 2 ^ 32" .
  have la32: "unat a < 2 ^ 32"
    using la by simp
  have "unat (push_bit k (ucast a :: 32 word)) =
        take_bit LENGTH(32) (push_bit k (take_bit LENGTH(32) (unat a)))"
    by (simp only: unsigned_push_bit_eq unsigned_ucast_eq)
  also have "\<dots> = unat a * 2 ^ k"
    using lk la32 by (simp only: take_bit_nat_eq_self push_bit_eq_mult len_num1 len_bit0 mult_1_right mult_numeral_left_semiring_numeral num.simps)
       (simp add: take_bit_nat_eq_self)
  finally show ?thesis .
qed

lemma unat_triple:
  fixes a b c :: byte
  shows "unat (push_bit 16 (ucast a) OR push_bit 8 (ucast b) OR (ucast c) :: 32 word) = unat a * 65536 + unat b * 256 + unat c"
proof -
  have la: "unat a < 256" and lb: "unat b < 256" and lc: "unat c < 256"
    using unsigned_less [of a] unsigned_less [of b] unsigned_less [of c] by simp_all
  have ua: "unat (push_bit 16 (ucast a :: 32 word)) = unat a * 65536"
    using unat_shifted_byte [of 16 a] by simp
  have ub: "unat (push_bit 8 (ucast b :: 32 word)) = unat b * 256"
    using unat_shifted_byte [of 8 b] by simp
  have uc: "unat (ucast c :: 32 word) = unat c"
    using unat_shifted_byte [of 0 c] by simp
  have "unat (push_bit 16 (ucast a) + (push_bit 8 (ucast b) + ucast c) :: 32 word) =
        unat a * 65536 + (unat b * 256 + unat c)"
    unfolding unat_word_ariths ua ub uc using la lb lc by simp
  then show ?thesis by (simp only: triple_or_add add.assoc)
qed

lemma unat_sextet: "unat (drop_bit k (w :: 32 word) AND 0x3F) = unat w div 2 ^ k mod 64"
proof -
  have "(0x3F :: 32 word) = mask 6" by (simp add: mask_eq_exp_minus_1)
  then have "drop_bit k w AND 0x3F = take_bit 6 (drop_bit k w)"
    by (simp only: take_bit_eq_mask)
  then have "unat (drop_bit k w AND 0x3F) = take_bit 6 (drop_bit k (unat w))"
    by (simp only: unsigned_take_bit_eq unat_drop_bit_eq)
  also have "\<dots> = unat w div 2 ^ k mod 64"
    by (simp add: take_bit_eq_mod drop_bit_eq_div)
  finally show ?thesis .
qed

lemma unat_sextet0: "unat ((w :: 32 word) AND 0x3F) = unat w mod 64"
  using unat_sextet [of 0 w] by simp


lemma upt_small: "[0..<4] = [0, 1, 2, 3::nat]" "[0..<3] = [0, 1, 2::nat]" "[0..<2] = [0, 1::nat]"
  by code_simp+

lemma sextets_4: "sextets 4 n = [rfc4648_alphabet (n div 262144 mod 64), rfc4648_alphabet (n div 4096 mod 64),
    rfc4648_alphabet (n div 64 mod 64), rfc4648_alphabet (n mod 64)]"
  unfolding sextets_def upt_small by simp

lemma sextets_3: "sextets 3 n = [rfc4648_alphabet (n div 4096 mod 64),
    rfc4648_alphabet (n div 64 mod 64), rfc4648_alphabet (n mod 64)]"
  unfolding sextets_def upt_small by simp

lemma sextets_2: "sextets 2 n = [rfc4648_alphabet (n div 64 mod 64), rfc4648_alphabet (n mod 64)]"
  unfolding sextets_def upt_small by simp

lemma base64_char_sextet:
  "base64_chars ! unat (drop_bit k (w :: 32 word) AND 0x3F) = rfc4648_alphabet (unat w div 2 ^ k mod 64)"
  by (simp only: unat_sextet) (simp add: alphabet_table)

lemma base64_char_sextet0:
  "base64_chars ! unat ((w :: 32 word) AND 0x3F) = rfc4648_alphabet (unat w mod 64)"
  by (simp only: unat_sextet0) (simp add: alphabet_table)

lemma drop_Cons_facts:
  assumes "drop i dat = x # xs"
  shows "i < length dat" "dat ! i = x" "drop (Suc i) dat = xs" "length dat = Suc (i + length xs)"
proof -
  have "length (drop i dat) = Suc (length xs)"
    using assms by simp
  then show "i < length dat" "length dat = Suc (i + length xs)"
    by simp_all
  show "dat ! i = x"
    using assms by (rule nth_via_drop)
  have "drop (Suc i) dat = tl (drop i dat)"
    by (simp add: drop_Suc tl_drop)
  then show "drop (Suc i) dat = xs"
    using assms by simp
qed

lemma shift64: "(m * 64) div 262144 = (m::nat) div 4096" "(m * 64) div 4096 = m div 64"
  using div_mult_mult2 [of 64 m 4096] div_mult_mult2 [of 64 m 64] by simp_all

lemma shift4096: "(m * 4096) div 262144 = (m::nat) div 64"
  using div_mult_mult2 [of 4096 m 64] by simp

lemma two_powers: "(2::nat) ^ 18 = 262144" "(2::nat) ^ 12 = 4096" "(2::nat) ^ 6 = 64"
  by simp_all

lemma base64_group_chars:
  "base64_group dat i =
     [rfc4648_alphabet (unat (base64_triple dat i) div 2 ^ 18 mod 64),
      rfc4648_alphabet (unat (base64_triple dat i) div 2 ^ 12 mod 64),
      if i + 1 < length dat then rfc4648_alphabet (unat (base64_triple dat i) div 2 ^ 6 mod 64)
      else CHR ''='',
      if i + 2 < length dat then rfc4648_alphabet (unat (base64_triple dat i) mod 64)
      else CHR ''='']"
  unfolding base64_group_def Let_def
  unfolding base64_char_sextet
  unfolding base64_char_sextet0
  by (rule refl)

lemma base64_group_3:
  assumes "drop i dat = a # b # c # rest"
  shows "base64_group dat i = sextets 4 (unat a * 65536 + unat b * 256 + unat c)"
proof -
  note f1 = drop_Cons_facts [OF assms]
  note f2 = drop_Cons_facts [OF f1(3)]
  note f3 = drop_Cons_facts [OF f2(3)]
  have idx: "dat ! i = a" "dat ! (i + 1) = b" "dat ! (i + 2) = c"
    and len: "i + 0 < length dat" "i + 1 < length dat" "i + 2 < length dat"
    using f1 f2 f3 by simp_all
  have "base64_triple dat i = push_bit 16 (ucast a) OR push_bit 8 (ucast b) OR ucast c"
    unfolding base64_triple_def by (simp only: idx len if_True)
  then have tr: "unat (base64_triple dat i) = unat a * 65536 + unat b * 256 + unat c"
    by (simp only: unat_triple)
  show ?thesis
    unfolding base64_group_chars tr sextets_4 two_powers
    by (simp only: len if_True)
qed

lemma base64_group_2:
  assumes "drop i dat = [a, b]"
  shows "base64_group dat i = sextets 3 ((unat a * 256 + unat b) * 4) @ ''=''"
proof -
  note f1 = drop_Cons_facts [OF assms]
  note f2 = drop_Cons_facts [OF f1(3)]
  have idx: "dat ! i = a" "dat ! (i + 1) = b"
    and len: "i + 0 < length dat" "i + 1 < length dat" "(i + 2 < length dat) = False"
    using f1 f2 by simp_all
  have "base64_triple dat i = push_bit 16 (ucast a) OR push_bit 8 (ucast b) OR 0"
    unfolding base64_triple_def by (simp only: idx len if_True if_False)
  then have "base64_triple dat i = push_bit 16 (ucast a) OR push_bit 8 (ucast b) OR ucast (0 :: byte)"
    by simp
  then have "unat (base64_triple dat i) = unat a * 65536 + unat b * 256 + unat (0 :: byte)"
    by (simp only: unat_triple)
  then have tr: "unat (base64_triple dat i) = (unat a * 256 + unat b) * 4 * 64"
    by simp
  show ?thesis
    unfolding base64_group_chars tr sextets_3 two_powers shift64
    by (simp only: len if_True if_False nonzero_mult_div_cancel_right append_Cons append_Nil)
qed

lemma base64_group_1:
  assumes "drop i dat = [a]"
  shows "base64_group dat i = sextets 2 (unat a * 16) @ ''==''"
proof -
  note f1 = drop_Cons_facts [OF assms]
  have idx: "dat ! i = a"
    and len: "i + 0 < length dat" "(i + 1 < length dat) = False" "(i + 2 < length dat) = False"
    using f1 by simp_all
  have "base64_triple dat i = push_bit 16 (ucast a) OR 0 OR 0"
    unfolding base64_triple_def by (simp only: idx len if_True if_False)
  then have "base64_triple dat i =
      push_bit 16 (ucast a) OR push_bit 8 (ucast (0 :: byte)) OR ucast (0 :: byte)"
    by simp
  then have "unat (base64_triple dat i) = unat a * 65536 + unat (0 :: byte) * 256 + unat (0 :: byte)"
    by (simp only: unat_triple)
  then have tr: "unat (base64_triple dat i) = unat a * 16 * 4096"
    by simp
  show ?thesis
    unfolding base64_group_chars tr sextets_2 two_powers shift4096
    by (simp only: len if_True if_False append_Cons append_Nil) (simp add: mult.commute)
qed

lemma base64_loop_rfc4648:
  "i \<le> length dat \<Longrightarrow> base64_loop dat i encoded = encoded @ rfc4648_base64 (drop i dat)"
proof (induction dat i encoded rule: base64_loop.induct)
  case (1 dat i encoded)
  show ?case
  proof (cases "drop i dat" rule: rfc4648_base64.cases)
    case (1 a b c rest)
    note f1 = drop_Cons_facts [OF 1]
    note f2 = drop_Cons_facts [OF f1(3)]
    note f3 = drop_Cons_facts [OF f2(3)]
    have d3: "drop (i + 3) dat = rest"
      using f3(3) by (simp add: numeral_3_eq_3)
    have "i + 3 \<le> length dat"
      using f1 f2 f3 by simp
    with "1.IH" f1(1) have "base64_loop dat (i + 3) (encoded @ base64_group dat i) =
        (encoded @ base64_group dat i) @ rfc4648_base64 (drop (i + 3) dat)"
      by simp
    then show ?thesis
      using f1(1) by (subst base64_loop.simps) (simp add: 1 d3 base64_group_3 [OF 1])
  next
    case (2 a b)
    note f1 = drop_Cons_facts [OF 2]
    note f2 = drop_Cons_facts [OF f1(3)]
    have over: "\<not> i + 3 < length dat"
      using f1 f2 by simp
    have "base64_loop dat (i + 3) (encoded @ base64_group dat i) = encoded @ base64_group dat i"
      using over by (subst base64_loop.simps) simp
    then show ?thesis
      using f1(1) by (subst base64_loop.simps) (simp add: 2 base64_group_2 [OF 2])
  next
    case (3 a)
    note f1 = drop_Cons_facts [OF 3]
    have over: "\<not> i + 3 < length dat"
      using f1 by simp
    have "base64_loop dat (i + 3) (encoded @ base64_group dat i) = encoded @ base64_group dat i"
      using over by (subst base64_loop.simps) simp
    then show ?thesis
      using f1(1) by (subst base64_loop.simps) (simp add: 3 base64_group_1 [OF 3])
  next
    case 4
    then have "\<not> i < length dat" by simp
    then show ?thesis
      by (subst base64_loop.simps) (simp add: 4)
  qed
qed

lemma base64_encode_rfc4648: "base64_encode dat = rfc4648_base64 dat"
  by (simp add: base64_encode_def base64_loop_rfc4648)

lemma digit_char_lower_hex: "d < 16 \<Longrightarrow> digit_char d = lower_hex_digit d"
proof -
  have "\<forall>d \<in> set [0..<16]. digit_char d = lower_hex_digit d"
    by code_simp
  then show "d < 16 \<Longrightarrow> digit_char d = lower_hex_digit d" by simp
qed

lemma digits_16_small: "n < 16 \<Longrightarrow> digits 16 n = [digit_char n]"
  by (subst digits.simps) simp

lemma digits_16_byte: "16 \<le> n \<Longrightarrow> n < 256 \<Longrightarrow> digits 16 n = [digit_char (n div 16), digit_char (n mod 16)]"
  by (subst digits.simps) (simp add: digits_16_small)

lemma hex_byte: "setw_setfill 2 (CHR ''0'') (digits 16 (unat (b :: byte))) = hex_pair b"
proof -
  have lb: "unat b < 256"
    using unsigned_less [of b] by simp
  have z: "lower_hex_digit 0 = CHR ''0''"
    by code_simp
  show ?thesis
  proof (cases "unat b < 16")
    case True
    then show ?thesis
      by (simp add: setw_setfill_def hex_pair_def digits_16_small digit_char_lower_hex z)
  next
    case False
    with lb show ?thesis
      by (simp add: setw_setfill_def hex_pair_def digits_16_byte digit_char_lower_hex)
  qed
qed

lemma hex_encode_pairs: "hex_encode bs = concat (map hex_pair bs)"
  by (induction bs) (simp_all add: hex_byte)


lemma attribute_value_bytes:
  assumes "read_bytes s = Inr (buffer, s')"
  shows "attribute_value TYPE_BYTES_HEX s tbl = Inr (hex_encode buffer, s', tbl)"
    and "attribute_value TYPE_BYTES_BASE64 s tbl = Inr (base64_encode buffer, s', tbl)"
  using assms by (simp_all add: attribute_value_def)

text \<open>
  Claim C8. The value of a byte-run attribute: under the hex type it is two lowercase
  hex digits for every byte, high nibble first, with nothing between them; under the
  base64 type it is the RFC 4648 encoding with padding. The bytes DE AD give
  \<open>dead\<close> and \<open>3q0=\<close>.
\<close>

theorem byte_run_encodings:
  "hex_encode buffer = concat (map hex_pair buffer) \<and>
   base64_encode buffer = rfc4648_base64 buffer \<and>
   (read_bytes s = Inr (buffer, s') \<longrightarrow>
      attribute_value TYPE_BYTES_HEX s tbl = Inr (concat (map hex_pair buffer), s', tbl) \<and>
      attribute_value TYPE_BYTES_BASE64 s tbl = Inr (rfc4648_base64 buffer, s', tbl)) \<and>
   hex_encode [0xDE, 0xAD] = ''dead'' \<and>
   base64_encode [0xDE, 0xAD] = ''3q0=''"
proof (intro conjI impI)
  show "hex_encode buffer = concat (map hex_pair buffer)"
    by (rule hex_encode_pairs)
  show "base64_encode buffer = rfc4648_base64 buffer"
    by (rule base64_encode_rfc4648)
  show "hex_encode [0xDE, 0xAD] = ''dead''"
    by (simp add: digits_16_byte setw_setfill_def digit_char_def)
  show "base64_encode [0xDE, 0xAD] = ''3q0=''"
    by (simp add: base64_encode_def base64_loop.simps base64_group_def base64_triple_def
        base64_chars_def)
next
  assume "read_bytes s = Inr (buffer, s')"
  then show "attribute_value TYPE_BYTES_HEX s tbl = Inr (concat (map hex_pair buffer), s', tbl)"
    and "attribute_value TYPE_BYTES_BASE64 s tbl = Inr (rfc4648_base64 buffer, s', tbl)"
    by (simp_all add: attribute_value_bytes hex_encode_pairs base64_encode_rfc4648)
qed

theorem byte_run_encodings_witness:
  "read_bytes \<lparr>data = [0x00, 0x02, 0xDE, 0xAD], pos = 0, eofbit = False, failbit = False\<rparr> =
     Inr ([0xDE, 0xAD], \<lparr>data = [0x00, 0x02, 0xDE, 0xAD], pos = 4, eofbit = False, failbit = False\<rparr>) \<and>
   attribute_value TYPE_BYTES_HEX
     \<lparr>data = [0x00, 0x02, 0xDE, 0xAD], pos = 0, eofbit = False, failbit = False\<rparr> [] =
     Inr (concat (map hex_pair [0xDE, 0xAD]),
       \<lparr>data = [0x00, 0x02, 0xDE, 0xAD], pos = 4, eofbit = False, failbit = False\<rparr>, []) \<and>
   attribute_value TYPE_BYTES_BASE64
     \<lparr>data = [0x00, 0x02, 0xDE, 0xAD], pos = 0, eofbit = False, failbit = False\<rparr> [] =
     Inr (rfc4648_base64 [0xDE, 0xAD],
       \<lparr>data = [0x00, 0x02, 0xDE, 0xAD], pos = 4, eofbit = False, failbit = False\<rparr>, [])"
proof -
  have rb: "read_bytes \<lparr>data = [0x00, 0x02, 0xDE, 0xAD], pos = 0, eofbit = False, failbit = False\<rparr> =
     Inr ([0xDE, 0xAD], \<lparr>data = [0x00, 0x02, 0xDE, 0xAD], pos = 4, eofbit = False, failbit = False\<rparr>)"
    by (simp add: read_bytes_def read_short_def istream_read_def be_nat_def)
  show ?thesis
    using rb byte_run_encodings [of "[0xDE, 0xAD]"
        "\<lparr>data = [0x00, 0x02, 0xDE, 0xAD], pos = 0, eofbit = False, failbit = False\<rparr>"
        "\<lparr>data = [0x00, 0x02, 0xDE, 0xAD], pos = 4, eofbit = False, failbit = False\<rparr>" "[]"]
    by simp
qed

section \<open>The points of a decode, and the shape of the tree\<close>

text \<open>
  \<open>reaches is_multi_root st0 st\<close>: the loop started in \<open>st0\<close> is at its head in state
  \<open>st\<close> after some number of turns, none of which failed or left the loop.
\<close>

inductive reaches :: "bool \<Rightarrow> reader_state \<Rightarrow> reader_state \<Rightarrow> bool"
  for is_multi_root :: bool and st0 :: reader_state where
  reaches_start: "reaches is_multi_root st0 st0"
| reaches_turn: "reaches is_multi_root st0 st \<Longrightarrow>
     read_iteration is_multi_root st = Inr (Continue st') \<Longrightarrow> reaches is_multi_root st0 st'"

text \<open>
  \<open>is_child h a c\<close>: element \<open>c\<close> is in the \<^verbatim>\<open>children\<close> of element \<open>a\<close>. An
  ancestor chain runs from parent to child at every step.
\<close>

definition is_child :: "XMLElement list \<Rightarrow> nat \<Rightarrow> nat \<Rightarrow> bool" where
  "is_child h a c \<longleftrightarrow> a < length h \<and> c \<in> set (children (h ! a))"

fun ancestor_chain :: "XMLElement list \<Rightarrow> nat list \<Rightarrow> bool" where
  "ancestor_chain h [] = True"
| "ancestor_chain h [a] = (a < length h)"
| "ancestor_chain h (a # b # rest) = (is_child h a b \<and> ancestor_chain h (b # rest))"

text \<open>
  The store holds a forest: a child is made after its parent, and has one parent only.
\<close>

definition store_wf :: "XMLElement list \<Rightarrow> bool" where
  "store_wf h \<longleftrightarrow>
     (\<forall>a c. is_child h a c \<longrightarrow> a < c \<and> c < length h) \<and>
     (\<forall>a b c. is_child h a c \<and> is_child h b c \<longrightarrow> a = b)"

text \<open>
  The open elements: each one on the stack is the last child of the one below it.
\<close>

fun open_chain :: "XMLElement list \<Rightarrow> nat list \<Rightarrow> bool" where
  "open_chain h [] = True"
| "open_chain h [a] = (a < length h)"
| "open_chain h (a # b # rest) =
     (a < length h \<and> children (h ! a) \<noteq> [] \<and> last (children (h ! a)) = b \<and> open_chain h (b # rest))"

text \<open>
  What holds of the locals of \<^verbatim>\<open>read\<close> at the head of the loop: the bottom of a
  non-empty stack is the root, the root is nobody's child, and in multi-root mode the
  stack is never empty and the root is the wrapper (the first element made).
\<close>

definition state_inv :: "bool \<Rightarrow> reader_state \<Rightarrow> bool" where
  "state_inv mr st \<longleftrightarrow>
     store_wf (store st) \<and> open_chain (store st) (element_stack st) \<and>
     (element_stack st \<noteq> [] \<longrightarrow> root st = Some (hd (element_stack st))) \<and>
     (\<forall>r. root st = Some r \<longrightarrow> r < length (store st) \<and> (\<forall>p. \<not> is_child (store st) p r)) \<and>
     (mr \<longrightarrow> element_stack st \<noteq> [] \<and> root st = Some 0)"

section \<open>The invariant of the loop\<close>

lemma open_chain_in_range: "open_chain h xs \<Longrightarrow> a \<in> set xs \<Longrightarrow> a < length h"
  by (induction h xs rule: open_chain.induct) auto

lemma open_chain_ancestor: "open_chain h xs \<Longrightarrow> ancestor_chain h xs"
  by (induction h xs rule: open_chain.induct) (auto simp: is_child_def)

lemma open_chain_butlast: "open_chain h xs \<Longrightarrow> open_chain h (butlast xs)"
  by (induction h xs rule: open_chain.induct) (auto split: if_splits)

lemma open_chain_less_last:
  "store_wf h \<Longrightarrow> open_chain h (xs @ [t]) \<Longrightarrow> a \<in> set xs \<Longrightarrow> a < t"
proof (induction xs arbitrary: a)
  case Nil
  then show ?case by simp
next
  case (Cons x xs)
  show ?case
  proof (cases xs)
    case Nil
    with Cons.prems have "is_child h x t" "a = x"
      by (auto simp: is_child_def)
    with Cons.prems(1) show ?thesis
      by (auto simp: store_wf_def)
  next
    case (Cons y ys)
    with Cons.prems have xy: "is_child h x y" and oc: "open_chain h (xs @ [t])"
      by (auto simp: is_child_def)
    have "y < t"
      using Cons.IH [OF Cons.prems(1) oc, of y] Cons by simp
    moreover have "x < y"
      using xy Cons.prems(1) by (auto simp: store_wf_def)
    ultimately show ?thesis
      using Cons.prems(3) Cons.IH [OF Cons.prems(1) oc, of a] by auto
  qed
qed

text \<open>Changing the text or the attributes of an element changes no child list.\<close>

lemma is_child_same_children:
  assumes "length h' = length h" "\<And>a. a < length h \<Longrightarrow> children (h' ! a) = children (h ! a)"
  shows "is_child h' = is_child h"
  using assms by (auto simp: is_child_def fun_eq_iff)

lemma open_chain_same_children:
  assumes "length h' = length h" "\<And>a. a < length h \<Longrightarrow> children (h' ! a) = children (h ! a)"
  shows "open_chain h' xs = open_chain h xs"
proof (induction xs rule: induct_list012)
  case 1
  show ?case by simp
next
  case (2 x)
  show ?case by (simp add: assms(1))
next
  case (3 x y zs)
  show ?case
  proof (cases "x < length h")
    case True
    with 3 assms(2) [OF True] show ?thesis by (simp add: assms(1))
  next
    case False
    then show ?thesis by (simp add: assms(1))
  qed
qed

lemma state_inv_same_children:
  assumes "state_inv mr st" "length h' = length (store st)"
    "\<And>a. a < length (store st) \<Longrightarrow> children (h' ! a) = children (store st ! a)"
    "element_stack st' = element_stack st" "root st' = root st" "store st' = h'"
  shows "state_inv mr st'"
proof -
  have c: "is_child (store st') = is_child (store st)"
    unfolding assms(6) by (rule is_child_same_children [OF assms(2,3)])
  have o: "open_chain (store st') xs = open_chain (store st) xs" for xs
    unfolding assms(6) by (rule open_chain_same_children [OF assms(2,3)])
  have l: "length (store st') = length (store st)"
    unfolding assms(6) by (rule assms(2))
  show ?thesis
    using assms(1) unfolding state_inv_def store_wf_def c o l assms(4) assms(5) .
qed


lemma is_child_append_new:
  "is_child (h @ [new_XMLElement nm]) a c \<longleftrightarrow> is_child h a c"
  by (auto simp: is_child_def nth_append new_XMLElement_def less_Suc_eq)

lemma is_child_add_child:
  assumes "tp < length h"
  shows "is_child (add_child tp (length h) (h @ [new_XMLElement nm])) a c \<longleftrightarrow>
         is_child h a c \<or> (a = tp \<and> c = length h)"
proof (cases "a = tp")
  case True
  with assms show ?thesis
    by (auto simp: is_child_def add_child_def nth_append)
next
  case False
  then show ?thesis
    by (auto simp: is_child_def add_child_def nth_append new_XMLElement_def less_Suc_eq)
qed

lemma store_wf_append_new: "store_wf h \<Longrightarrow> store_wf (h @ [new_XMLElement nm])"
  unfolding store_wf_def is_child_append_new by (auto simp: less_Suc_eq)

lemma store_wf_add_child:
  assumes "store_wf h" "tp < length h"
  shows "store_wf (add_child tp (length h) (h @ [new_XMLElement nm]))"
proof -
  have len: "length (add_child tp (length h) (h @ [new_XMLElement nm])) = Suc (length h)"
    by (simp add: add_child_def)
  have old: "is_child h a c \<Longrightarrow> a < c \<and> c < length h" for a c
    using assms(1) by (auto simp: store_wf_def)
  have uniq: "is_child h a c \<Longrightarrow> is_child h b c \<Longrightarrow> a = b" for a b c
    using assms(1) unfolding store_wf_def by blast
  show ?thesis
    unfolding store_wf_def is_child_add_child [OF assms(2)] len
    using old uniq assms(2) by (metis less_Suc_eq less_irrefl)
qed

lemma open_chain_extend:
  assumes "\<forall>a\<in>set xs. children (h' ! a) = children (h ! a)" "length h \<le> length h'"
    "children (h' ! tp) \<noteq> []" "last (children (h' ! tp)) = n" "n < length h'"
  shows "open_chain h (xs @ [tp]) \<Longrightarrow> open_chain h' (xs @ [tp, n])"
  using assms(1)
proof (induction xs)
  case Nil
  with assms show ?case by simp
next
  case (Cons x xs)
  show ?case
  proof (cases xs)
    case Nil
    with Cons assms(2) show ?thesis by simp
  next
    case (Cons y ys)
    with Cons.prems Cons.IH assms(2) show ?thesis by simp
  qed
qed

lemma open_chain_add_child:
  assumes "store_wf h" "open_chain h stack" "stack \<noteq> []"
  shows "open_chain (add_child (last stack) (length h) (h @ [new_XMLElement nm]))
           (stack @ [length h])"
proof -
  obtain xs tp where st: "stack = xs @ [tp]"
    using assms(3) by (metis append_butlast_last_id)
  have tp: "tp < length h"
    using open_chain_in_range [OF assms(2), of tp] st by simp
  have less: "a < tp" if "a \<in> set xs" for a
    using open_chain_less_last [OF assms(1), of xs tp a] assms(2) st that by simp
  let ?h' = "add_child tp (length h) (h @ [new_XMLElement nm])"
  have same: "\<forall>a\<in>set xs. children (?h' ! a) = children (h ! a)"
  proof
    fix a assume "a \<in> set xs"
    then have "a < tp" by (rule less)
    with tp show "children (?h' ! a) = children (h ! a)"
      by (simp add: add_child_def nth_append)
  qed
  have "open_chain ?h' (xs @ [tp, length h])"
  proof (rule open_chain_extend [OF same])
    show "length h \<le> length ?h'" by (simp add: add_child_def)
    show "children (?h' ! tp) \<noteq> []" using tp by (simp add: add_child_def nth_append)
    show "last (children (?h' ! tp)) = length h" using tp by (simp add: add_child_def nth_append)
    show "length h < length ?h'" by (simp add: add_child_def)
    show "open_chain h (xs @ [tp])" using assms(2) st by simp
  qed
  then show ?thesis by (simp add: st)
qed

lemma state_inv_init: "state_inv mr (init_state mr s)"
  by (cases mr) (auto simp: state_inv_def init_state_def Let_def store_wf_def is_child_def
      new_XMLElement_def)


lemma on_start_document_inv:
  "state_inv mr st \<Longrightarrow> on_start_document dt st = Inr (Continue st') \<Longrightarrow> state_inv mr st'"
  by (auto simp: on_start_document_def state_inv_def split: if_splits)

lemma on_end_document_no_Continue: "on_end_document mr dt st \<noteq> Inr (Continue st')"
  by (simp add: on_end_document_def)

lemma on_start_tag_inv:
  assumes "state_inv mr st" "on_start_tag dt st = Inr (Continue st')"
  shows "state_inv mr st'"
proof -
  from assms(2) obtain nm s' tbl' where
    ri: "read_interned_string (stream st) (interned_strings st) = Inr (nm, s', tbl')"
    by (auto simp: on_start_tag_def split: if_splits sum.splits)
  let ?n = "length (store st)"
  have wf: "store_wf (store st)" and oc: "open_chain (store st) (element_stack st)"
    using assms(1) by (simp_all add: state_inv_def)
  show ?thesis
  proof (cases "element_stack st = []")
    case True
    then have nmr: "\<not> mr"
      using assms(1) by (auto simp: state_inv_def)
    from assms(2) ri True have st': "store st' = store st @ [new_XMLElement nm]"
      "element_stack st' = [?n]" "root st' = Some ?n"
      by (auto simp: on_start_tag_def Let_def split: if_splits)
    have nochild: "\<not> is_child (store st) p ?n" for p
      using wf by (auto simp: store_wf_def)
    show ?thesis
      unfolding state_inv_def st' is_child_append_new
      using store_wf_append_new [OF wf] nmr nochild by simp
  next
    case False
    let ?tp = "last (element_stack st)"
    have tp: "?tp < length (store st)"
      using open_chain_in_range [OF oc, of ?tp] False by simp
    from assms(2) ri False have st':
      "store st' = add_child ?tp ?n (store st @ [new_XMLElement nm])"
      "element_stack st' = element_stack st @ [?n]" "root st' = root st"
      by (auto simp: on_start_tag_def Let_def split: if_splits)
    have len: "length (store st') = Suc ?n"
      by (simp add: st' add_child_def)
    have rt: "root st = Some (hd (element_stack st))"
      and rt2: "\<And>r. root st = Some r \<Longrightarrow> r < ?n \<and> (\<forall>p. \<not> is_child (store st) p r)"
      and mr0: "mr \<Longrightarrow> root st = Some 0"
      using assms(1) False by (auto simp: state_inv_def)
    show ?thesis
      unfolding state_inv_def st' is_child_add_child [OF tp]
      using store_wf_add_child [OF wf tp] open_chain_add_child [OF wf oc False] rt rt2 mr0 False
      by (auto simp: add_child_def)
  qed
qed

lemma on_end_tag_inv:
  assumes "state_inv mr st" "on_end_tag mr dt st = Inr (Continue st')"
  shows "state_inv mr st'"
proof -
  from assms(2) have open1: "\<not> no_open_element mr (element_stack st)"
    and st': "store st' = store st" "element_stack st' = butlast (element_stack st)"
      "root st' = root st"
    by (auto simp: on_end_tag_def Let_def split: if_splits sum.splits)
  have ne: "element_stack st \<noteq> []" and two: "mr \<Longrightarrow> butlast (element_stack st) \<noteq> []"
    using open1 by (cases "element_stack st"; auto simp: no_open_element_def)+
  have hd: "butlast (element_stack st) \<noteq> [] \<Longrightarrow> hd (butlast (element_stack st)) = hd (element_stack st)"
    by (cases "element_stack st") auto
  show ?thesis
    unfolding state_inv_def st'
    using assms(1) open_chain_butlast [of "store st" "element_stack st"] ne two hd
    by (auto simp: state_inv_def)
qed

lemma children_update_same:
  "children el = children (h ! i) \<Longrightarrow> a < length h \<Longrightarrow> children (h[i := el] ! a) = children (h ! a)"
  by (cases "a = i") simp_all

lemma on_text_inv:
  assumes "state_inv mr st" "on_text st = Inr (Continue st')"
  shows "state_inv mr st'"
proof (rule state_inv_same_children [OF assms(1)])
  from assms(2) show "element_stack st' = element_stack st" "root st' = root st"
    by (auto simp: on_text_def Let_def split: if_splits sum.splits)
  show "store st' = store st'" ..
  from assms(2) show "length (store st') = length (store st)"
    by (auto simp: on_text_def Let_def split: if_splits sum.splits)
  fix a assume "a < length (store st)"
  with assms(2) show "children (store st' ! a) = children (store st ! a)"
    by (auto simp: on_text_def Let_def children_update_same split: if_splits sum.splits)
qed

lemma on_attribute_inv:
  assumes "state_inv mr st" "on_attribute mr dt st = Inr (Continue st')"
  shows "state_inv mr st'"
proof (rule state_inv_same_children [OF assms(1)])
  from assms(2) show "element_stack st' = element_stack st" "root st' = root st"
    by (auto simp: on_attribute_def Let_def split: if_splits sum.splits)
  show "store st' = store st'" ..
  from assms(2) show "length (store st') = length (store st)"
    by (auto simp: on_attribute_def Let_def split: if_splits sum.splits)
  fix a assume "a < length (store st)"
  with assms(2) show "children (store st' ! a) = children (store st ! a)"
    by (auto simp: on_attribute_def Let_def children_update_same split: if_splits sum.splits)
qed

lemma on_unknown_inv:
  "state_inv mr st \<Longrightarrow> on_unknown dt st = Inr (Continue st') \<Longrightarrow> state_inv mr st'"
  by (auto simp: on_unknown_def state_inv_def split: if_splits sum.splits)

lemma process_token_inv:
  assumes "state_inv mr st" "process_token mr token st = Inr (Continue st')"
  shows "state_inv mr st'"
  using assms unfolding process_token_def Let_def
  by (auto split: if_splits simp: on_end_document_no_Continue
      dest: on_start_document_inv on_start_tag_inv on_end_tag_inv on_text_inv on_attribute_inv
        on_unknown_inv)

lemma state_inv_stream: "state_inv mr (st\<lparr>stream := s\<rparr>) = state_inv mr st"
  by (simp add: state_inv_def)

lemma read_iteration_inv:
  assumes "state_inv mr st" "read_iteration mr st = Inr (Continue st')"
  shows "state_inv mr st'"
proof -
  from assms(2) obtain token s1 where
    "process_token mr token (st\<lparr>stream := s1\<rparr>) = Inr (Continue st')"
    by (auto simp: read_iteration_def split: if_splits sum.splits)
  then show ?thesis
    using process_token_inv [of mr "st\<lparr>stream := s1\<rparr>" token st'] assms(1)
    by (simp add: state_inv_stream)
qed

lemma reaches_inv: "reaches mr st0 st \<Longrightarrow> state_inv mr st0 \<Longrightarrow> state_inv mr st"
  by (induction rule: reaches.induct) (auto intro: read_iteration_inv)

section \<open>Errors of the loop, and where the loop ends\<close>

text \<open>The error of the check \<^verbatim>\<open>if (!root)\<close> after the loop; nothing else throws it.\<close>

definition no_root_error :: error where
  "no_root_error = AbxDecodeError ''No root element found''"

lemma primitive_errors:
  "read_byte s = Inl e \<Longrightarrow> e \<noteq> no_root_error"
  "read_short s = Inl e \<Longrightarrow> e \<noteq> no_root_error"
  "read_unsigned_short s = Inl e \<Longrightarrow> e \<noteq> no_root_error"
  "read_int s = Inl e \<Longrightarrow> e \<noteq> no_root_error"
  "read_long s = Inl e \<Longrightarrow> e \<noteq> no_root_error"
  "read_float s = Inl e \<Longrightarrow> e \<noteq> no_root_error"
  "read_double s = Inl e \<Longrightarrow> e \<noteq> no_root_error"
  by (auto simp: read_byte_def read_short_def read_unsigned_short_def read_int_def read_long_def
      read_float_def read_double_def no_root_error_def split: prod.splits option.splits)

lemma read_string_raw_error: "read_string_raw s = Inl e \<Longrightarrow> e \<noteq> no_root_error"
  by (auto simp: read_string_raw_def no_root_error_def split: sum.splits prod.splits option.splits
      dest: primitive_errors)

lemma read_bytes_error: "read_bytes s = Inl e \<Longrightarrow> e \<noteq> no_root_error"
  by (auto simp: read_bytes_def no_root_error_def split: sum.splits prod.splits option.splits
      dest: primitive_errors)

lemma read_interned_string_error: "read_interned_string s tbl = Inl e \<Longrightarrow> e \<noteq> no_root_error"
  by (auto simp: read_interned_string_def no_root_error_def split: sum.splits prod.splits if_splits
      dest: primitive_errors read_string_raw_error)

text \<open>A result that is not that error, and the ways the code combines results.\<close>

definition not_no_root :: "error + 'a \<Rightarrow> bool" where
  "not_no_root r = (case r of Inl e \<Rightarrow> e \<noteq> no_root_error | Inr x \<Rightarrow> True)"

lemma not_no_root_if: "not_no_root a \<Longrightarrow> not_no_root b \<Longrightarrow> not_no_root (if c then a else b)"
  by simp

lemma not_no_root_bind:
  "not_no_root m \<Longrightarrow> (\<And>x. not_no_root (f x)) \<Longrightarrow> not_no_root (case_sum Inl f m)"
  by (cases m) (simp_all add: not_no_root_def)

lemma not_no_root_prod: "(\<And>a b. not_no_root (f a b)) \<Longrightarrow> not_no_root (case_prod f p)"
  by (cases p) simp

lemma not_no_root_Inr: "not_no_root (Inr x)"
  by (simp add: not_no_root_def)

lemma not_no_root_Let: "not_no_root (f x) \<Longrightarrow> not_no_root (Let x f)"
  by simp

lemma not_no_root_reads:
  "not_no_root (read_int s)" "not_no_root (read_long s)" "not_no_root (read_float s)"
  "not_no_root (read_double s)" "not_no_root (read_short s)" "not_no_root (read_string_raw s)"
  "not_no_root (read_bytes s)" "not_no_root (read_interned_string s tbl)"
  by (auto simp: not_no_root_def split: sum.splits
      dest: primitive_errors read_string_raw_error read_bytes_error read_interned_string_error)

lemma attribute_value_error: "attribute_value dt s tbl = Inl e \<Longrightarrow> e \<noteq> no_root_error"
proof -
  have "not_no_root (attribute_value dt s tbl)"
    unfolding attribute_value_def
    by (intro not_no_root_if not_no_root_bind not_no_root_prod not_no_root_Inr not_no_root_reads)
      (simp add: not_no_root_def no_root_error_def)
  then show "attribute_value dt s tbl = Inl e \<Longrightarrow> e \<noteq> no_root_error"
    by (simp add: not_no_root_def)
qed

lemma handler_errors:
  "on_start_document dt st = Inl e \<Longrightarrow> e \<noteq> no_root_error"
  "on_end_document mr dt st = Inl e \<Longrightarrow> e \<noteq> no_root_error"
  "on_start_tag dt st = Inl e \<Longrightarrow> e \<noteq> no_root_error"
  "on_end_tag mr dt st = Inl e \<Longrightarrow> e \<noteq> no_root_error"
  "on_text st = Inl e \<Longrightarrow> e \<noteq> no_root_error"
  "on_attribute mr dt st = Inl e \<Longrightarrow> e \<noteq> no_root_error"
  "on_unknown dt st = Inl e \<Longrightarrow> e \<noteq> no_root_error"
  by (auto simp: on_start_document_def on_end_document_def on_start_tag_def on_end_tag_def
      on_text_def on_attribute_def on_unknown_def Let_def no_root_error_def
      split: sum.splits prod.splits if_splits
      dest: primitive_errors read_string_raw_error read_interned_string_error attribute_value_error)

lemma process_token_error: "process_token mr token st = Inl e \<Longrightarrow> e \<noteq> no_root_error"
  unfolding process_token_def Let_def
  by (auto split: if_splits dest: handler_errors)

lemma read_iteration_error: "read_iteration mr st = Inl e \<Longrightarrow> e \<noteq> no_root_error"
  by (auto simp: read_iteration_def split: if_splits sum.splits
      dest: primitive_errors process_token_error)

lemma read_loop_error: "read_loop mr st = Inl e \<Longrightarrow> e \<noteq> no_root_error"
proof (induction mr st rule: read_loop.induct)
  case (1 mr st)
  show ?case
  proof (cases "read_iteration mr st")
    case (Inl e')
    with "1.prems" show ?thesis
      by (subst (asm) read_loop.simps) (auto dest: read_iteration_error)
  next
    case (Inr ctl)
    show ?thesis
    proof (cases ctl)
      case (Continue st')
      with Inr "1.prems" "1.IH" show ?thesis
        by (subst (asm) read_loop.simps) auto
    next
      case (Break st')
      with Inr "1.prems" show ?thesis
        by (subst (asm) read_loop.simps) auto
    qed
  qed
qed

lemma skip_extension_data_error: "skip_extension_data token s = Inl e \<Longrightarrow> e \<noteq> no_root_error"
proof -
  have "not_no_root (skip_extension_data token s)"
    unfolding skip_extension_data_def
    by (intro not_no_root_Let not_no_root_if not_no_root_bind not_no_root_prod not_no_root_Inr
        not_no_root_reads)
  then show "skip_extension_data token s = Inl e \<Longrightarrow> e \<noteq> no_root_error"
    by (simp add: not_no_root_def)
qed

lemma skip_header_extension_error: "skip_header_extension s = Inl e \<Longrightarrow> e \<noteq> no_root_error"
proof (induction s rule: skip_header_extension.induct)
  case (1 s)
  show ?case
  proof (cases "read_byte s")
    case (Inl e')
    with "1.prems" show ?thesis
      by (subst (asm) skip_header_extension.simps) (auto dest: primitive_errors)
  next
    case (Inr p)
    obtain token s1 where p: "p = (token, s1)" by (cases p)
    show ?thesis
    proof (cases "token AND 0x0f = START_DOCUMENT")
      case True
      with Inr p "1.prems" show ?thesis
        by (subst (asm) skip_header_extension.simps) simp
    next
      case False
      show ?thesis
      proof (cases "skip_extension_data token s1")
        case (Inl e')
        with Inr p False "1.prems" show ?thesis
          by (subst (asm) skip_header_extension.simps) (auto dest: skip_extension_data_error)
      next
        case r: (Inr s2)
        with Inr p False "1.prems" have "skip_header_extension s2 = Inl e"
          by (subst (asm) skip_header_extension.simps) simp
        with "1.IH" Inr p False r show ?thesis
          by simp
      qed
    qed
  qed
qed

lemma read_prologue_error: "read_prologue file = Inl e \<Longrightarrow> e \<noteq> no_root_error"
  by (auto simp: read_prologue_def no_root_error_def split: prod.splits option.splits if_splits
      dest: skip_header_extension_error [unfolded no_root_error_def])

lemma reaches_first:
  "reaches mr st1 st2 \<Longrightarrow> read_iteration mr st = Inr (Continue st1) \<Longrightarrow> reaches mr st st2"
  by (induction rule: reaches.induct) (auto intro: reaches.intros)

lemma reaches_trans: "reaches mr st1 st2 \<Longrightarrow> reaches mr st0 st1 \<Longrightarrow> reaches mr st0 st2"
  by (induction rule: reaches.induct) (auto intro: reaches.intros)

text \<open>The loop ends at a head it reached: by \<^verbatim>\<open>eof()\<close>, or by an end-document token.\<close>

lemma read_loop_reaches:
  "read_loop mr st = Inr st' \<Longrightarrow>
     \<exists>hd_st. reaches mr st hd_st \<and> read_iteration mr hd_st = Inr (Break st')"
proof (induction mr st rule: read_loop.induct)
  case (1 mr st)
  show ?case
  proof (cases "read_iteration mr st")
    case (Inl e')
    with "1.prems" show ?thesis
      by (subst (asm) read_loop.simps) auto
  next
    case (Inr ctl)
    show ?thesis
    proof (cases ctl)
      case (Continue st1)
      with Inr "1.prems" have "read_loop mr st1 = Inr st'"
        by (subst (asm) read_loop.simps) auto
      with "1.IH" Inr Continue obtain hd_st where
        "reaches mr st1 hd_st" "read_iteration mr hd_st = Inr (Break st')"
        by blast
      with Inr Continue show ?thesis
        by (auto intro: reaches_first)
    next
      case (Break st1)
      with Inr "1.prems" have "st1 = st'"
        by (subst (asm) read_loop.simps) auto
      with Inr Break show ?thesis
        by (auto intro: reaches.intros)
    qed
  qed
qed

lemma read_iteration_Break:
  "read_iteration mr st = Inr (Break st') \<Longrightarrow>
     store st' = store st \<and> element_stack st' = element_stack st \<and> root st' = root st \<and>
     interned_strings st' = interned_strings st"
  by (auto simp: read_iteration_def process_token_def Let_def on_start_document_def
      on_end_document_def on_start_tag_def on_end_tag_def on_text_def on_attribute_def
      on_unknown_def split: if_splits sum.splits prod.splits)

section \<open>The open-element stack\<close>

lemma ancestor_chain_snoc:
  assumes "store_wf h"
  shows "ancestor_chain h (xs @ [x]) \<longleftrightarrow>
     (if xs = [] then x < length h else ancestor_chain h xs \<and> is_child h (last xs) x)"
proof (induction xs rule: induct_list012)
  case 1
  show ?case by simp
next
  case (2 a)
  have "is_child h a x \<Longrightarrow> x < length h"
    using assms by (auto simp: store_wf_def)
  then show ?case by (auto simp: is_child_def)
next
  case (3 a b zs)
  then show ?case by auto
qed

lemma ancestor_chain_unique:
  assumes wf: "store_wf h" and noparent: "\<forall>p. \<not> is_child h p r"
  shows "ancestor_chain h xs \<Longrightarrow> ancestor_chain h ys \<Longrightarrow> xs \<noteq> [] \<Longrightarrow> ys \<noteq> [] \<Longrightarrow>
         hd xs = r \<Longrightarrow> hd ys = r \<Longrightarrow> last xs = last ys \<Longrightarrow> xs = ys"
proof (induction xs arbitrary: ys rule: rev_induct)
  case Nil
  then show ?case by simp
next
  case (snoc x xs')
  from snoc.prems(4) obtain ys' y where ys: "ys = ys' @ [y]"
    by (metis append_butlast_last_id)
  with snoc.prems(7) have xy: "y = x" by simp
  show ?case
  proof (cases "xs' = []")
    case True
    with snoc.prems(5) have xr: "x = r" by simp
    have "ys' = []"
    proof (rule ccontr)
      assume ne: "ys' \<noteq> []"
      with snoc.prems(2) ys have "is_child h (last ys') y"
        by (simp add: ancestor_chain_snoc [OF wf])
      with noparent xy xr show False by simp
    qed
    with True ys xy show ?thesis by simp
  next
    case False
    with snoc.prems(1) have cx: "ancestor_chain h xs'" "is_child h (last xs') x"
      by (simp_all add: ancestor_chain_snoc [OF wf])
    have hx: "hd xs' = r"
      using snoc.prems(5) False by simp
    have ne: "ys' \<noteq> []"
    proof
      assume "ys' = []"
      with ys snoc.prems(6) xy have "x = r" by simp
      with cx(2) noparent show False by simp
    qed
    with snoc.prems(2) ys have cy: "ancestor_chain h ys'" "is_child h (last ys') y"
      by (simp_all add: ancestor_chain_snoc [OF wf])
    have "last xs' = last ys'"
      using wf cx(2) cy(2) xy unfolding store_wf_def by blast
    moreover have "hd ys' = r"
      using snoc.prems(6) ys ne by simp
    ultimately have "xs' = ys'"
      using snoc.IH [OF cx(1) cy(1) False ne hx] by simp
    with ys xy show ?thesis by simp
  qed
qed

lemma on_end_tag_mismatch:
  assumes "\<not> no_open_element mr (element_stack st)"
    "read_interned_string (stream st) (interned_strings st) = Inr (tag_name, s2, tbl)"
    "tag_name \<noteq> tag (store st ! last (element_stack st))"
  shows "on_end_tag mr TYPE_STRING_INTERNED st = Inl (AbxDecodeError ''Mismatched END_TAG'')"
  using assms by (auto simp: on_end_tag_def)

lemma on_end_tag_Continue:
  assumes "on_end_tag mr dt st = Inr (Continue st')"
  shows "element_stack st' = butlast (element_stack st) \<and> element_stack st \<noteq> [] \<and>
         (\<exists>s2 tbl. read_interned_string (stream st) (interned_strings st) =
            Inr (tag (store st ! last (element_stack st)), s2, tbl))"
  using assms
  by (auto simp: on_end_tag_def Let_def no_open_element_def split: if_splits sum.splits)

lemma stack_not_shorter:
  "on_start_document dt st = Inr (Continue st') \<Longrightarrow> element_stack st' = element_stack st"
  "on_start_tag dt st = Inr (Continue st') \<Longrightarrow> length (element_stack st') = Suc (length (element_stack st))"
  "on_text st = Inr (Continue st') \<Longrightarrow> element_stack st' = element_stack st"
  "on_attribute mr dt st = Inr (Continue st') \<Longrightarrow> element_stack st' = element_stack st"
  "on_unknown dt st = Inr (Continue st') \<Longrightarrow> element_stack st' = element_stack st"
  by (auto simp: on_start_document_def on_start_tag_def on_text_def on_attribute_def on_unknown_def
      Let_def split: if_splits sum.splits)

lemma process_token_pop:
  assumes "process_token mr token st = Inr (Continue st')"
    "length (element_stack st') < length (element_stack st)"
  shows "token AND 0x0f = END_TAG \<and> on_end_tag mr (token AND 0xf0) st = Inr (Continue st')"
  using assms unfolding process_token_def Let_def
  by (auto split: if_splits simp: on_end_document_no_Continue dest: stack_not_shorter)


text \<open>The definitions a decode of concrete bytes unfolds.\<close>

lemmas decode_eval =
  read_iteration_def eof_def read_byte_def istream_read_def process_token_def
  on_start_document_def on_end_document_def on_start_tag_def on_end_tag_def on_text_def
  on_attribute_def on_unknown_def read_interned_string_def read_short_def
  read_unsigned_short_def read_string_raw_def be_nat_def byte_to_char_def
  no_open_element_def new_XMLElement_def add_child_def init_state_def Let_def

section \<open>From one turn of the loop to \<^verbatim>\<open>read\<close>\<close>

lemma read_loop_Inl: "read_iteration mr st = Inl e \<Longrightarrow> read_loop mr st = Inl e"
  by (subst read_loop.simps) simp

lemma read_loop_Break: "read_iteration mr st = Inr (Break st') \<Longrightarrow> read_loop mr st = Inr st'"
  by (subst read_loop.simps) simp

lemma read_loop_Continue:
  "read_iteration mr st = Inr (Continue st') \<Longrightarrow> read_loop mr st = read_loop mr st'"
  by (subst read_loop.simps) simp

lemma read_loop_from_reaches: "reaches mr st0 st \<Longrightarrow> read_loop mr st0 = read_loop mr st"
  by (induction rule: reaches.induct) (simp_all add: read_loop_Continue)

lemma read_Inl:
  "read_prologue file = Inr s \<Longrightarrow> read_loop mr (init_state mr s) = Inl e \<Longrightarrow> read mr file = Inl e"
  by (simp add: read_def)

lemma read_iteration_token:
  "read_byte (stream st) = Inr (token, s1) \<Longrightarrow>
     read_iteration mr st = process_token mr token (st\<lparr>stream := s1\<rparr>)"
  by (auto simp: read_iteration_def eof_def dest: read_byte_Inr)

section \<open>What each token does to the stack\<close>

lemma on_start_tag_push:
  assumes "on_start_tag dt st = Inr (Continue st')"
    and "element_stack st \<noteq> [] \<Longrightarrow> last (element_stack st) < length (store st)"
  shows "element_stack st' = element_stack st @ [length (store st)]"
    and "length (store st') = Suc (length (store st))"
    and "children (store st' ! length (store st)) = []"
    and "\<exists>s2 tbl. read_interned_string (stream st) (interned_strings st) =
           Inr (tag (store st' ! length (store st)), s2, tbl)"
    and "element_stack st = [] \<Longrightarrow> root st' = Some (length (store st))"
    and "element_stack st \<noteq> [] \<Longrightarrow> root st' = root st"
    and "element_stack st \<noteq> [] \<Longrightarrow>
           is_child (store st') (last (element_stack st)) (length (store st))"
proof -
  from assms(1) obtain nm s2 tbl where
    ri: "read_interned_string (stream st) (interned_strings st) = Inr (nm, s2, tbl)"
    by (auto simp: on_start_tag_def split: if_splits sum.splits)
  show "element_stack st' = element_stack st @ [length (store st)]"
    and "length (store st') = Suc (length (store st))"
    and "element_stack st = [] \<Longrightarrow> root st' = Some (length (store st))"
    and "element_stack st \<noteq> [] \<Longrightarrow> root st' = root st"
    using assms(1) ri
    by (auto simp: on_start_tag_def Let_def add_child_def split: if_splits)
  have new: "store st' ! length (store st) = new_XMLElement nm"
  proof (cases "element_stack st = []")
    case True
    with assms(1) ri show ?thesis
      by (auto simp: on_start_tag_def Let_def split: if_splits)
  next
    case False
    with assms(2) have "last (element_stack st) \<noteq> length (store st)" by simp
    with assms(1) ri False show ?thesis
      by (auto simp: on_start_tag_def Let_def add_child_def split: if_splits)
  qed
  show "children (store st' ! length (store st)) = []"
    by (simp add: new new_XMLElement_def)
  show "\<exists>s2 tbl. read_interned_string (stream st) (interned_strings st) =
           Inr (tag (store st' ! length (store st)), s2, tbl)"
    using ri by (simp add: new new_XMLElement_def)
  show "is_child (store st') (last (element_stack st)) (length (store st))"
    if "element_stack st \<noteq> []"
    using assms(1) ri that assms(2) [OF that]
    by (auto simp: on_start_tag_def Let_def add_child_def is_child_def nth_append
        split: if_splits)
qed

lemma on_start_tag_succeeds:
  assumes "read_interned_string (stream st) (interned_strings st) = Inr (nm, s2, tbl)"
  shows "\<exists>st'. on_start_tag TYPE_STRING_INTERNED st = Inr (Continue st')"
  using assms by (simp add: on_start_tag_def Let_def)

lemma process_token_same_stack:
  assumes "process_token mr token st = Inr (Continue st')"
    "token AND 0x0f \<noteq> START_TAG" "token AND 0x0f \<noteq> END_TAG"
  shows "element_stack st' = element_stack st"
  using assms unfolding process_token_def Let_def
  by (auto split: if_splits simp: on_end_document_no_Continue dest: stack_not_shorter)

lemma process_token_START_TAG:
  "token AND 0x0f = START_TAG \<Longrightarrow> process_token mr token st = on_start_tag (token AND 0xf0) st"
  by (simp add: process_token_def)

lemma process_token_END_TAG:
  "token AND 0x0f = END_TAG \<Longrightarrow> process_token mr token st = on_end_tag mr (token AND 0xf0) st"
  by (simp add: process_token_def)


lemma on_end_tag_store: "on_end_tag mr dt st = Inr (Continue st') \<Longrightarrow> store st' = store st"
  by (auto simp: on_end_tag_def Let_def split: if_splits sum.splits)

text \<open>
  Claim C3. At every head of the loop of a decode:
  \<^item> a non-empty stack starts at the root, which is nobody's child, every element on it
    is a child of the one below, and it is the only such chain from the root to its top;
  \<^item> a start-tag token that succeeds makes one new element, without children, named by the
    resolved name, pushes it on the stack, and makes it a child of the old top (or the
    root, when the stack was empty);
  \<^item> a token that is neither a start-tag nor an end-tag leaves the stack as it is;
  \<^item> an end-tag token that succeeds removes the top of the stack and nothing else, and
    its resolved name is the tag of that top;
  \<^item> an end-tag token whose name is resolved (its type is interned-string and an element
    is open) and differs from the tag of the top of the stack fails with
    "Mismatched END_TAG": the token, the turn of the loop, the loop and \<^verbatim>\<open>read\<close>;
  \<^item> a token that leaves the stack shorter is such an end-tag.
\<close>

theorem stack_is_ancestor_chain:
  assumes "reaches mr (init_state mr s) st"
  shows "(element_stack st \<noteq> [] \<longrightarrow>
            root st = Some (hd (element_stack st)) \<and>
            (\<forall>p. \<not> is_child (store st) p (hd (element_stack st))) \<and>
            ancestor_chain (store st) (element_stack st) \<and>
            (\<forall>xs. xs \<noteq> [] \<and> hd xs = hd (element_stack st) \<and> last xs = last (element_stack st) \<and>
                  ancestor_chain (store st) xs \<longrightarrow> xs = element_stack st)) \<and>
         (token AND 0x0f = START_TAG \<and>
            process_token mr token (st\<lparr>stream := s1\<rparr>) = Inr (Continue st') \<longrightarrow>
              element_stack st' = element_stack st @ [length (store st)] \<and>
              length (store st') = Suc (length (store st)) \<and>
              children (store st' ! length (store st)) = [] \<and>
              (\<exists>s3 tbl3. read_interned_string s1 (interned_strings st) =
                 Inr (tag (store st' ! length (store st)), s3, tbl3)) \<and>
              (element_stack st = [] \<longrightarrow> root st' = Some (length (store st))) \<and>
              (element_stack st \<noteq> [] \<longrightarrow> root st' = root st \<and>
                 is_child (store st') (last (element_stack st)) (length (store st)))) \<and>
         (token AND 0x0f \<noteq> START_TAG \<and> token AND 0x0f \<noteq> END_TAG \<and>
            process_token mr token (st\<lparr>stream := s1\<rparr>) = Inr (Continue st') \<longrightarrow>
              element_stack st' = element_stack st) \<and>
         (token AND 0x0f = END_TAG \<and>
            process_token mr token (st\<lparr>stream := s1\<rparr>) = Inr (Continue st') \<longrightarrow>
              element_stack st \<noteq> [] \<and> element_stack st' = butlast (element_stack st) \<and>
              store st' = store st \<and>
              (\<exists>s3 tbl3. read_interned_string s1 (interned_strings st) =
                 Inr (tag (store st ! last (element_stack st)), s3, tbl3))) \<and>
         (token AND 0x0f = END_TAG \<and> token AND 0xf0 = TYPE_STRING_INTERNED \<and>
            \<not> no_open_element mr (element_stack st) \<and>
            read_interned_string s1 (interned_strings st) = Inr (tag_name, s2, tbl) \<and>
            tag_name \<noteq> tag (store st ! last (element_stack st)) \<longrightarrow>
              process_token mr token (st\<lparr>stream := s1\<rparr>) =
                Inl (AbxDecodeError ''Mismatched END_TAG'') \<and>
              (read_byte (stream st) = Inr (token, s1) \<longrightarrow>
                 read_iteration mr st = Inl (AbxDecodeError ''Mismatched END_TAG'') \<and>
                 read_loop mr (init_state mr s) = Inl (AbxDecodeError ''Mismatched END_TAG'') \<and>
                 (read_prologue file = Inr s \<longrightarrow>
                    read mr file = Inl (AbxDecodeError ''Mismatched END_TAG'')))) \<and>
         (process_token mr token (st\<lparr>stream := s1\<rparr>) = Inr (Continue st') \<and>
            length (element_stack st') < length (element_stack st) \<longrightarrow>
              token AND 0x0f = END_TAG \<and> element_stack st' = butlast (element_stack st) \<and>
              (\<exists>s3 tbl3. read_interned_string s1 (interned_strings st) =
                 Inr (tag (store st ! last (element_stack st)), s3, tbl3)))"
proof -
  let ?st1 = "st\<lparr>stream := s1\<rparr>"
  have inv: "state_inv mr st"
    using reaches_inv [OF assms state_inv_init] .
  then have wf: "store_wf (store st)" and oc: "open_chain (store st) (element_stack st)"
    by (simp_all add: state_inv_def)
  have in_range: "element_stack st \<noteq> [] \<Longrightarrow> last (element_stack st) < length (store st)"
    using open_chain_in_range [OF oc, of "last (element_stack st)"] by simp
  have A: "element_stack st \<noteq> [] \<longrightarrow>
            root st = Some (hd (element_stack st)) \<and>
            (\<forall>p. \<not> is_child (store st) p (hd (element_stack st))) \<and>
            ancestor_chain (store st) (element_stack st) \<and>
            (\<forall>xs. xs \<noteq> [] \<and> hd xs = hd (element_stack st) \<and> last xs = last (element_stack st) \<and>
                  ancestor_chain (store st) xs \<longrightarrow> xs = element_stack st)"
  proof
    assume ne: "element_stack st \<noteq> []"
    from inv ne have rt: "root st = Some (hd (element_stack st))"
      by (simp add: state_inv_def)
    with inv have np: "\<forall>p. \<not> is_child (store st) p (hd (element_stack st))"
      by (simp add: state_inv_def)
    have ac: "ancestor_chain (store st) (element_stack st)"
      using oc by (rule open_chain_ancestor)
    have "\<forall>xs. xs \<noteq> [] \<and> hd xs = hd (element_stack st) \<and> last xs = last (element_stack st) \<and>
            ancestor_chain (store st) xs \<longrightarrow> xs = element_stack st"
      using ancestor_chain_unique [OF wf np _ ac _ ne _ refl] by blast
    with rt np ac show "root st = Some (hd (element_stack st)) \<and>
            (\<forall>p. \<not> is_child (store st) p (hd (element_stack st))) \<and>
            ancestor_chain (store st) (element_stack st) \<and>
            (\<forall>xs. xs \<noteq> [] \<and> hd xs = hd (element_stack st) \<and> last xs = last (element_stack st) \<and>
                  ancestor_chain (store st) xs \<longrightarrow> xs = element_stack st)"
      by blast
  qed
  have B: "token AND 0x0f = START_TAG \<and>
            process_token mr token ?st1 = Inr (Continue st') \<longrightarrow>
              element_stack st' = element_stack st @ [length (store st)] \<and>
              length (store st') = Suc (length (store st)) \<and>
              children (store st' ! length (store st)) = [] \<and>
              (\<exists>s3 tbl3. read_interned_string s1 (interned_strings st) =
                 Inr (tag (store st' ! length (store st)), s3, tbl3)) \<and>
              (element_stack st = [] \<longrightarrow> root st' = Some (length (store st))) \<and>
              (element_stack st \<noteq> [] \<longrightarrow> root st' = root st \<and>
                 is_child (store st') (last (element_stack st)) (length (store st)))"
  proof
    assume "token AND 0x0f = START_TAG \<and> process_token mr token ?st1 = Inr (Continue st')"
    then have ost: "on_start_tag (token AND 0xf0) ?st1 = Inr (Continue st')"
      using process_token_START_TAG [of token mr ?st1] by metis
    have r: "element_stack ?st1 \<noteq> [] \<Longrightarrow> last (element_stack ?st1) < length (store ?st1)"
      using in_range by simp
    show "element_stack st' = element_stack st @ [length (store st)] \<and>
              length (store st') = Suc (length (store st)) \<and>
              children (store st' ! length (store st)) = [] \<and>
              (\<exists>s3 tbl3. read_interned_string s1 (interned_strings st) =
                 Inr (tag (store st' ! length (store st)), s3, tbl3)) \<and>
              (element_stack st = [] \<longrightarrow> root st' = Some (length (store st))) \<and>
              (element_stack st \<noteq> [] \<longrightarrow> root st' = root st \<and>
                 is_child (store st') (last (element_stack st)) (length (store st)))"
      using on_start_tag_push [OF ost r] by simp
  qed
  have C: "token AND 0x0f \<noteq> START_TAG \<and> token AND 0x0f \<noteq> END_TAG \<and>
            process_token mr token ?st1 = Inr (Continue st') \<longrightarrow>
              element_stack st' = element_stack st"
    using process_token_same_stack [of mr token ?st1 st'] by simp
  have D: "token AND 0x0f = END_TAG \<and>
            process_token mr token ?st1 = Inr (Continue st') \<longrightarrow>
              element_stack st \<noteq> [] \<and> element_stack st' = butlast (element_stack st) \<and>
              store st' = store st \<and>
              (\<exists>s3 tbl3. read_interned_string s1 (interned_strings st) =
                 Inr (tag (store st ! last (element_stack st)), s3, tbl3))"
  proof
    assume "token AND 0x0f = END_TAG \<and> process_token mr token ?st1 = Inr (Continue st')"
    then have oet: "on_end_tag mr (token AND 0xf0) ?st1 = Inr (Continue st')"
      using process_token_END_TAG [of token mr ?st1] by metis
    show "element_stack st \<noteq> [] \<and> element_stack st' = butlast (element_stack st) \<and>
              store st' = store st \<and>
              (\<exists>s3 tbl3. read_interned_string s1 (interned_strings st) =
                 Inr (tag (store st ! last (element_stack st)), s3, tbl3))"
      using on_end_tag_Continue [OF oet] on_end_tag_store [OF oet] by simp
  qed
  have E: "token AND 0x0f = END_TAG \<and> token AND 0xf0 = TYPE_STRING_INTERNED \<and>
            \<not> no_open_element mr (element_stack st) \<and>
            read_interned_string s1 (interned_strings st) = Inr (tag_name, s2, tbl) \<and>
            tag_name \<noteq> tag (store st ! last (element_stack st)) \<longrightarrow>
              process_token mr token ?st1 = Inl (AbxDecodeError ''Mismatched END_TAG'') \<and>
              (read_byte (stream st) = Inr (token, s1) \<longrightarrow>
                 read_iteration mr st = Inl (AbxDecodeError ''Mismatched END_TAG'') \<and>
                 read_loop mr (init_state mr s) = Inl (AbxDecodeError ''Mismatched END_TAG'') \<and>
                 (read_prologue file = Inr s \<longrightarrow>
                    read mr file = Inl (AbxDecodeError ''Mismatched END_TAG'')))"
  proof
    assume h: "token AND 0x0f = END_TAG \<and> token AND 0xf0 = TYPE_STRING_INTERNED \<and>
            \<not> no_open_element mr (element_stack st) \<and>
            read_interned_string s1 (interned_strings st) = Inr (tag_name, s2, tbl) \<and>
            tag_name \<noteq> tag (store st ! last (element_stack st))"
    then have pt: "process_token mr token ?st1 = Inl (AbxDecodeError ''Mismatched END_TAG'')"
      using on_end_tag_mismatch [of mr ?st1 tag_name s2 tbl]
        process_token_END_TAG [of token mr ?st1]
      by simp
    have "read_iteration mr st = Inl (AbxDecodeError ''Mismatched END_TAG'') \<and>
          read_loop mr (init_state mr s) = Inl (AbxDecodeError ''Mismatched END_TAG'') \<and>
          (read_prologue file = Inr s \<longrightarrow> read mr file = Inl (AbxDecodeError ''Mismatched END_TAG''))"
      if rb: "read_byte (stream st) = Inr (token, s1)"
    proof -
      have it: "read_iteration mr st = Inl (AbxDecodeError ''Mismatched END_TAG'')"
        using read_iteration_token [OF rb, of mr] pt by simp
      then have lp: "read_loop mr (init_state mr s) = Inl (AbxDecodeError ''Mismatched END_TAG'')"
        using read_loop_from_reaches [OF assms] read_loop_Inl by simp
      show ?thesis
        using it lp read_Inl [of "file" s mr] by blast
    qed
    with pt show "process_token mr token ?st1 = Inl (AbxDecodeError ''Mismatched END_TAG'') \<and>
              (read_byte (stream st) = Inr (token, s1) \<longrightarrow>
                 read_iteration mr st = Inl (AbxDecodeError ''Mismatched END_TAG'') \<and>
                 read_loop mr (init_state mr s) = Inl (AbxDecodeError ''Mismatched END_TAG'') \<and>
                 (read_prologue file = Inr s \<longrightarrow>
                    read mr file = Inl (AbxDecodeError ''Mismatched END_TAG'')))"
      by blast
  qed
  have F: "process_token mr token ?st1 = Inr (Continue st') \<and>
            length (element_stack st') < length (element_stack st) \<longrightarrow>
              token AND 0x0f = END_TAG \<and> element_stack st' = butlast (element_stack st) \<and>
              (\<exists>s3 tbl3. read_interned_string s1 (interned_strings st) =
                 Inr (tag (store st ! last (element_stack st)), s3, tbl3))"
  proof
    assume "process_token mr token ?st1 = Inr (Continue st') \<and>
            length (element_stack st') < length (element_stack st)"
    then have "token AND 0x0f = END_TAG \<and>
               on_end_tag mr (token AND 0xf0) ?st1 = Inr (Continue st')"
      using process_token_pop [of mr token ?st1 st'] by simp
    then show "token AND 0x0f = END_TAG \<and> element_stack st' = butlast (element_stack st) \<and>
              (\<exists>s3 tbl3. read_interned_string s1 (interned_strings st) =
                 Inr (tag (store st ! last (element_stack st)), s3, tbl3))"
      using on_end_tag_Continue [of mr "token AND 0xf0" ?st1 st'] by simp
  qed
  from A B C D E F show ?thesis
    by (intro conjI)
qed


text \<open>
  A file that opens \<open>a\<close>, opens \<open>b\<close> inside it, and then has an end-tag for \<open>a\<close>;
  after it, an end-tag for \<open>b\<close>.
\<close>

definition nested_file :: "byte list" where
  "nested_file = [0x41, 0x42, 0x58, 0x00, 0x10, 0x32, 0xFF, 0xFF, 0x00, 0x01, 0x61,
     0x32, 0xFF, 0xFF, 0x00, 0x01, 0x62, 0x33, 0x00, 0x00, 0x33, 0x00, 0x01]"

definition nested_at :: "nat \<Rightarrow> istream" where
  "nested_at n = \<lparr>data = nested_file, pos = n, eofbit = False, failbit = False\<rparr>"

definition open_a :: reader_state where
  "open_a = \<lparr>stream = nested_at 11, interned_strings = [''a''],
     store = [new_XMLElement ''a''], document_opened = True, root_closed = False,
     element_stack = [0], root = Some 0\<rparr>"

definition open_a_b :: reader_state where
  "open_a_b = \<lparr>stream = nested_at 17, interned_strings = [''a'', ''b''],
     store = [(new_XMLElement ''a'')\<lparr>children := [1]\<rparr>, new_XMLElement ''b''],
     document_opened = True, root_closed = False, element_stack = [0, 1], root = Some 0\<rparr>"

lemmas nested_eval = nested_at_def nested_file_def open_a_def open_a_b_def

theorem stack_is_ancestor_chain_witness:
  "read_prologue nested_file = Inr (nested_at 4) \<and>
   reaches False (init_state False (nested_at 4)) open_a_b \<and>
   element_stack open_a_b = [0, 1] \<and>
   root open_a_b = Some 0 \<and>
   ancestor_chain (store open_a_b) [0, 1] \<and>
   process_token False 0x10 ((init_state False (nested_at 4))\<lparr>stream := nested_at 5\<rparr>) =
     Inr (Continue (init_state False (nested_at 5))) \<and>
   element_stack (init_state False (nested_at 5)) = element_stack (init_state False (nested_at 4)) \<and>
   process_token False 0x32 (open_a\<lparr>stream := nested_at 12\<rparr>) = Inr (Continue open_a_b) \<and>
   element_stack open_a_b = element_stack open_a @ [length (store open_a)] \<and>
   is_child (store open_a_b) (last (element_stack open_a)) (length (store open_a)) \<and>
   read_byte (stream open_a_b) = Inr (0x33, nested_at 18) \<and>
   read_interned_string (nested_at 18) (interned_strings open_a_b) =
     Inr (''a'', nested_at 20, [''a'', ''b'']) \<and>
   tag (store open_a_b ! last (element_stack open_a_b)) = ''b'' \<and>
   read_iteration False open_a_b = Inl (AbxDecodeError ''Mismatched END_TAG'') \<and>
   read False nested_file = Inl (AbxDecodeError ''Mismatched END_TAG'') \<and>
   process_token False 0x33 (open_a_b\<lparr>stream := nested_at 21\<rparr>) =
     Inr (Continue (open_a_b\<lparr>stream := nested_at 23, element_stack := [0]\<rparr>)) \<and>
   butlast (element_stack open_a_b) = [0]"
proof -
  let ?init = "init_state False (nested_at 4)"
  have pro: "read_prologue nested_file = Inr (nested_at 4)"
    by (simp add: read_prologue_def open_stream_def istream_read_def MAGIC_def
        skip_header_extension.simps read_byte_def seekg_cur_def nested_eval)
  have t1: "read_iteration False ?init = Inr (Continue (init_state False (nested_at 5)))"
    by (simp add: decode_eval nested_eval)
  have t2: "read_iteration False (init_state False (nested_at 5)) = Inr (Continue open_a)"
    by (simp add: decode_eval nested_eval)
  have t3: "read_iteration False open_a = Inr (Continue open_a_b)"
    by (simp add: decode_eval nested_eval)
  have r0: "reaches False ?init ?init"
    by (rule reaches_start)
  have r1: "reaches False ?init open_a"
    by (rule reaches_turn [OF reaches_turn [OF reaches_start t1] t2])
  have r2: "reaches False ?init open_a_b"
    by (rule reaches_turn [OF r1 t3])
  have p0: "process_token False 0x10 (?init\<lparr>stream := nested_at 5\<rparr>) =
      Inr (Continue (init_state False (nested_at 5)))"
    by (simp add: decode_eval nested_eval)
  have p1: "process_token False 0x32 (open_a\<lparr>stream := nested_at 12\<rparr>) = Inr (Continue open_a_b)"
    by (simp add: decode_eval nested_eval)
  have rb: "read_byte (stream open_a_b) = Inr (0x33, nested_at 18)"
    by (simp add: decode_eval nested_eval)
  have ri: "read_interned_string (nested_at 18) (interned_strings open_a_b) =
      Inr (''a'', nested_at 20, [''a'', ''b''])"
    by (simp add: decode_eval nested_eval)
  have p2: "process_token False 0x33 (open_a_b\<lparr>stream := nested_at 21\<rparr>) =
      Inr (Continue (open_a_b\<lparr>stream := nested_at 23, element_stack := [0]\<rparr>))"
    by (simp add: decode_eval nested_eval)
  have facts: "element_stack open_a_b = [0, 1]" "element_stack open_a = [0]"
    "length (store open_a) = 1" "tag (store open_a_b ! 1) = ''b''" "root open_a_b = Some 0"
    "tag (store open_a_b ! Suc 0) = ''b''"
    "element_stack ?init = []"
    by (simp_all add: nested_eval new_XMLElement_def init_state_def)
  have chain: "root open_a_b = Some 0 \<and> ancestor_chain (store open_a_b) [0, 1]"
    using stack_is_ancestor_chain [OF r2, THEN conjunct1] by (simp add: facts)
  have same: "element_stack (init_state False (nested_at 5)) = element_stack ?init"
    using stack_is_ancestor_chain [OF r0, of "0x10" "nested_at 5" "init_state False (nested_at 5)",
        THEN conjunct2, THEN conjunct2, THEN conjunct1] p0
    by simp
  have push: "element_stack open_a_b = element_stack open_a @ [length (store open_a)] \<and>
      is_child (store open_a_b) (last (element_stack open_a)) (length (store open_a))"
    using stack_is_ancestor_chain [OF r1, of "0x32" "nested_at 12" open_a_b,
        THEN conjunct2, THEN conjunct1] p1
    by (simp add: facts)
  have fail: "read_iteration False open_a_b = Inl (AbxDecodeError ''Mismatched END_TAG'') \<and>
      read False nested_file = Inl (AbxDecodeError ''Mismatched END_TAG'')"
    using stack_is_ancestor_chain [OF r2, of "0x33" "nested_at 18" _ "''a''" "nested_at 20"
        "[''a'', ''b'']" nested_file,
        THEN conjunct2, THEN conjunct2, THEN conjunct2, THEN conjunct2, THEN conjunct1] rb ri pro
    by (simp add: facts no_open_element_def)
  have pop: "butlast (element_stack open_a_b) = [0]"
    using stack_is_ancestor_chain [OF r2, of "0x33" "nested_at 21"
        "open_a_b\<lparr>stream := nested_at 23, element_stack := [0]\<rparr>",
        THEN conjunct2, THEN conjunct2, THEN conjunct2, THEN conjunct1] p2
    by simp
  show ?thesis
    using pro r2 facts chain p0 same p1 push rb ri fail p2 pop by simp
qed

section \<open>Multi-root mode\<close>

text \<open>Tags are set when an element is made and never change.\<close>

lemma tag_list_update: "tag el = tag (h ! i) \<Longrightarrow> tag (h[i := el] ! a) = tag (h ! a)"
  by (cases "a = i"; cases "i < length h") (simp_all add: list_update_beyond)

lemma handler_tags:
  "on_start_document dt st = Inr (Continue st') \<Longrightarrow> store st' = store st"
  "on_start_tag dt st = Inr (Continue st') \<Longrightarrow>
     length (store st') = Suc (length (store st)) \<and>
     (\<forall>a<length (store st). tag (store st' ! a) = tag (store st ! a))"
  "on_text st = Inr (Continue st') \<Longrightarrow>
     length (store st') = length (store st) \<and> (\<forall>a. tag (store st' ! a) = tag (store st ! a))"
  "on_attribute mr dt st = Inr (Continue st') \<Longrightarrow>
     length (store st') = length (store st) \<and> (\<forall>a. tag (store st' ! a) = tag (store st ! a))"
  "on_unknown dt st = Inr (Continue st') \<Longrightarrow> store st' = store st"
  by (auto simp: on_start_document_def on_start_tag_def on_text_def on_attribute_def
      on_unknown_def Let_def add_child_def nth_append tag_list_update
      split: if_splits sum.splits)

lemma process_token_tags:
  assumes "process_token mr token st = Inr (Continue st')"
  shows "length (store st) \<le> length (store st') \<and>
         (\<forall>a<length (store st). tag (store st' ! a) = tag (store st ! a))"
proof -
  consider "on_start_document (token AND 0xf0) st = Inr (Continue st')"
    | "on_start_tag (token AND 0xf0) st = Inr (Continue st')"
    | "on_end_tag mr (token AND 0xf0) st = Inr (Continue st')"
    | "on_text st = Inr (Continue st')"
    | "on_attribute mr (token AND 0xf0) st = Inr (Continue st')"
    | "on_unknown (token AND 0xf0) st = Inr (Continue st')"
    using assms unfolding process_token_def Let_def
    by (auto split: if_splits simp: on_end_document_no_Continue)
  then show ?thesis
  proof cases
    case 1 then show ?thesis by (simp add: handler_tags)
  next
    case 2 then show ?thesis using handler_tags(2) [of "token AND 0xf0" st st'] by simp
  next
    case 3 then show ?thesis by (simp add: on_end_tag_store)
  next
    case 4 then show ?thesis using handler_tags(3) [of st st'] by simp
  next
    case 5 then show ?thesis using handler_tags(4) [of mr "token AND 0xf0" st st'] by simp
  next
    case 6 then show ?thesis by (simp add: handler_tags)
  qed
qed

lemma read_iteration_tags:
  assumes "read_iteration mr st = Inr (Continue st')"
  shows "length (store st) \<le> length (store st') \<and>
         (\<forall>a<length (store st). tag (store st' ! a) = tag (store st ! a))"
proof -
  from assms obtain token s1 where
    "process_token mr token (st\<lparr>stream := s1\<rparr>) = Inr (Continue st')"
    by (auto simp: read_iteration_def split: if_splits sum.splits)
  from process_token_tags [OF this] show ?thesis by simp
qed

lemma reaches_tags:
  "reaches mr st0 st \<Longrightarrow>
     length (store st0) \<le> length (store st) \<and>
     (\<forall>a<length (store st0). tag (store st ! a) = tag (store st0 ! a))"
proof (induction rule: reaches.induct)
  case reaches_start
  show ?case by simp
next
  case (reaches_turn st st')
  from read_iteration_tags [OF reaches_turn.hyps(2)] reaches_turn.IH show ?case
    by auto
qed

lemma multi_root_state:
  assumes "reaches True (init_state True s) st"
  shows "element_stack st \<noteq> []" "hd (element_stack st) = 0" "root st = Some 0"
    "0 < length (store st)" "tag (store st ! 0) = ''root''"
proof -
  have inv: "state_inv True st"
    using reaches_inv [OF assms state_inv_init] .
  then show "element_stack st \<noteq> []" "root st = Some 0"
    by (simp_all add: state_inv_def)
  with inv show "hd (element_stack st) = 0"
    by (simp add: state_inv_def)
  show "0 < length (store st)" "tag (store st ! 0) = ''root''"
    using reaches_tags [OF assms] by (auto simp: init_state_def new_XMLElement_def)
qed

lemma on_end_tag_wrapper_only:
  assumes "length (element_stack st) = 1"
  shows "on_end_tag True dt st =
     Inl (AbxDecodeError (if dt = TYPE_STRING_INTERNED then ''Unexpected END_TAG''
                          else ''Invalid END_TAG data type''))"
  using assms by (simp add: on_end_tag_def no_open_element_def)

lemma read_multi_root_result:
  "read True file \<noteq> Inl no_root_error \<and>
   (read True file = Inr (r, h) \<longrightarrow> r = 0 \<and> 0 < length h \<and> tag (h ! 0) = ''root'')"
proof (cases "read_prologue file")
  case (Inl e)
  then show ?thesis
    using read_prologue_error [OF Inl] by (simp add: read_def)
next
  case (Inr s)
  show ?thesis
  proof (cases "read_loop True (init_state True s)")
    case (Inl e)
    then show ?thesis
      using read_loop_error [OF Inl] Inr by (simp add: read_def)
  next
    case r: (Inr st)
    from read_loop_reaches [OF r] obtain hd_st where
      re: "reaches True (init_state True s) hd_st" and
      br: "read_iteration True hd_st = Inr (Break st)"
      by blast
    from read_iteration_Break [OF br] multi_root_state [OF re]
    have "root st = Some 0" "0 < length (store st)" "tag (store st ! 0) = ''root''"
      by simp_all
    then show ?thesis
      using Inr r by (auto simp: read_def)
  qed
qed


text \<open>
  Claim C10. In multi-root mode the loop starts with the wrapper \<open>root\<close> made, assigned
  to \<^verbatim>\<open>root\<close> and alone on the stack, on the stream as the header skipper left it. At
  every head of the loop the stack is not empty, its bottom is the wrapper, and
  \<^verbatim>\<open>root\<close> is the wrapper; every token that succeeds leaves it so. An end-tag token
  that finds the wrapper alone on the stack fails ("Unexpected END_TAG", or "Invalid
  END_TAG data type" when its type is not interned-string), and with it the turn, the loop
  and \<^verbatim>\<open>read\<close>. A loop that ends leaves \<^verbatim>\<open>root\<close> assigned, so \<^verbatim>\<open>read\<close> never fails
  with "No root element found", on any file; what it returns is the wrapper.
\<close>

theorem multi_root_wrapper_stays:
  assumes "reaches True (init_state True s) st"
  shows "init_state True s =
           \<lparr>stream = s, interned_strings = [], store = [new_XMLElement ''root''],
            document_opened = True, root_closed = False, element_stack = [0], root = Some 0\<rparr> \<and>
         element_stack st \<noteq> [] \<and> hd (element_stack st) = 0 \<and> root st = Some 0 \<and>
         0 < length (store st) \<and> tag (store st ! 0) = ''root'' \<and>
         (process_token True token (st\<lparr>stream := s1\<rparr>) = Inr (Continue st') \<longrightarrow>
            element_stack st' \<noteq> [] \<and> hd (element_stack st') = 0 \<and> root st' = Some 0) \<and>
         (token AND 0x0f = END_TAG \<and> length (element_stack st) = 1 \<longrightarrow>
            process_token True token (st\<lparr>stream := s1\<rparr>) =
              Inl (AbxDecodeError (if token AND 0xf0 = TYPE_STRING_INTERNED
                 then ''Unexpected END_TAG'' else ''Invalid END_TAG data type'')) \<and>
            (read_byte (stream st) = Inr (token, s1) \<longrightarrow>
               read_iteration True st =
                 Inl (AbxDecodeError (if token AND 0xf0 = TYPE_STRING_INTERNED
                    then ''Unexpected END_TAG'' else ''Invalid END_TAG data type'')) \<and>
               read_loop True (init_state True s) =
                 Inl (AbxDecodeError (if token AND 0xf0 = TYPE_STRING_INTERNED
                    then ''Unexpected END_TAG'' else ''Invalid END_TAG data type'')) \<and>
               (read_prologue file = Inr s \<longrightarrow>
                  read True file =
                    Inl (AbxDecodeError (if token AND 0xf0 = TYPE_STRING_INTERNED
                       then ''Unexpected END_TAG'' else ''Invalid END_TAG data type''))))) \<and>
         (read_loop True (init_state True s) = Inr st_end \<longrightarrow>
            element_stack st_end \<noteq> [] \<and> hd (element_stack st_end) = 0 \<and> root st_end = Some 0) \<and>
         read True file' \<noteq> Inl (AbxDecodeError ''No root element found'') \<and>
         (read True file' = Inr (r, h) \<longrightarrow> r = 0 \<and> 0 < length h \<and> tag (h ! 0) = ''root'')"
proof -
  let ?st1 = "st\<lparr>stream := s1\<rparr>"
  let ?err = "AbxDecodeError (if token AND 0xf0 = TYPE_STRING_INTERNED
                 then ''Unexpected END_TAG'' else ''Invalid END_TAG data type'')"
  have A: "init_state True s =
           \<lparr>stream = s, interned_strings = [], store = [new_XMLElement ''root''],
            document_opened = True, root_closed = False, element_stack = [0], root = Some 0\<rparr>"
    by (simp add: init_state_def)
  note B = multi_root_state [OF assms]
  have C: "process_token True token ?st1 = Inr (Continue st') \<longrightarrow>
            element_stack st' \<noteq> [] \<and> hd (element_stack st') = 0 \<and> root st' = Some 0"
  proof
    assume pt: "process_token True token ?st1 = Inr (Continue st')"
    have "state_inv True ?st1"
      using reaches_inv [OF assms state_inv_init] by (simp add: state_inv_stream)
    from process_token_inv [OF this pt]
    show "element_stack st' \<noteq> [] \<and> hd (element_stack st') = 0 \<and> root st' = Some 0"
      by (auto simp: state_inv_def)
  qed
  have D: "token AND 0x0f = END_TAG \<and> length (element_stack st) = 1 \<longrightarrow>
            process_token True token ?st1 = Inl ?err \<and>
            (read_byte (stream st) = Inr (token, s1) \<longrightarrow>
               read_iteration True st = Inl ?err \<and>
               read_loop True (init_state True s) = Inl ?err \<and>
               (read_prologue file = Inr s \<longrightarrow> read True file = Inl ?err))"
  proof
    assume h: "token AND 0x0f = END_TAG \<and> length (element_stack st) = 1"
    then have pt: "process_token True token ?st1 = Inl ?err"
      using on_end_tag_wrapper_only [of ?st1 "token AND 0xf0"]
        process_token_END_TAG [of token True ?st1]
      by simp
    have "read_iteration True st = Inl ?err \<and>
          read_loop True (init_state True s) = Inl ?err \<and>
          (read_prologue file = Inr s \<longrightarrow> read True file = Inl ?err)"
      if rb: "read_byte (stream st) = Inr (token, s1)"
    proof -
      have it: "read_iteration True st = Inl ?err"
        using read_iteration_token [OF rb, of True] pt by simp
      then have lp: "read_loop True (init_state True s) = Inl ?err"
        using read_loop_from_reaches [OF assms] read_loop_Inl by simp
      show ?thesis
        using it lp read_Inl [of "file" s True] by blast
    qed
    with pt show "process_token True token ?st1 = Inl ?err \<and>
            (read_byte (stream st) = Inr (token, s1) \<longrightarrow>
               read_iteration True st = Inl ?err \<and>
               read_loop True (init_state True s) = Inl ?err \<and>
               (read_prologue file = Inr s \<longrightarrow> read True file = Inl ?err))"
      by blast
  qed
  have E: "read_loop True (init_state True s) = Inr st_end \<longrightarrow>
            element_stack st_end \<noteq> [] \<and> hd (element_stack st_end) = 0 \<and> root st_end = Some 0"
  proof
    assume "read_loop True (init_state True s) = Inr st_end"
    from read_loop_reaches [OF this] obtain hd_st where
      re: "reaches True (init_state True s) hd_st" and
      br: "read_iteration True hd_st = Inr (Break st_end)"
      by blast
    from read_iteration_Break [OF br] multi_root_state [OF re]
    show "element_stack st_end \<noteq> [] \<and> hd (element_stack st_end) = 0 \<and> root st_end = Some 0"
      by simp
  qed
  have F: "read True file' \<noteq> Inl (AbxDecodeError ''No root element found'')"
    and G: "read True file' = Inr (r, h) \<longrightarrow> r = 0 \<and> 0 < length h \<and> tag (h ! 0) = ''root''"
    using read_multi_root_result [of file' r h] by (simp_all add: no_root_error_def)
  from A B C D E F G show ?thesis
    by (intro conjI)
qed


text \<open>
  A file with two top-level elements, \<open>a\<close> and \<open>b\<close>, one after the other, and no outer
  element: start-document, start-tag and end-tag of \<open>a\<close>, start-tag and end-tag of
  \<open>b\<close>, end-document.
\<close>

definition siblings_file :: "byte list" where
  "siblings_file = [0x41, 0x42, 0x58, 0x00, 0x10, 0x32, 0xFF, 0xFF, 0x00, 0x01, 0x61,
     0x33, 0x00, 0x00, 0x32, 0xFF, 0xFF, 0x00, 0x01, 0x62, 0x33, 0x00, 0x01, 0x11]"

definition siblings_at :: "nat \<Rightarrow> istream" where
  "siblings_at n = \<lparr>data = siblings_file, pos = n, eofbit = False, failbit = False\<rparr>"

text \<open>The states of the multi-root decode of that file, by the position of the stream.\<close>

definition siblings_multi :: "nat \<Rightarrow> reader_state" where
  "siblings_multi n =
     (let st = init_state True (siblings_at n);
          a = new_XMLElement ''a''; b = new_XMLElement ''b''; wrapper = new_XMLElement ''root''
      in if n < 11 then st
         else if n < 14 then
           st\<lparr>interned_strings := [''a''], store := [wrapper\<lparr>children := [1]\<rparr>, a],
              element_stack := [0, 1]\<rparr>
         else if n < 20 then
           st\<lparr>interned_strings := [''a''], store := [wrapper\<lparr>children := [1]\<rparr>, a]\<rparr>
         else if n < 23 then
           st\<lparr>interned_strings := [''a'', ''b''], store := [wrapper\<lparr>children := [1, 2]\<rparr>, a, b],
              element_stack := [0, 2]\<rparr>
         else
           st\<lparr>interned_strings := [''a'', ''b''], store := [wrapper\<lparr>children := [1, 2]\<rparr>, a, b]\<rparr>)"

lemmas siblings_eval = siblings_file_def siblings_at_def siblings_multi_def

lemma siblings_prologue: "read_prologue siblings_file = Inr (siblings_at 4)"
  by (simp add: read_prologue_def open_stream_def istream_read_def MAGIC_def
      skip_header_extension.simps read_byte_def seekg_cur_def siblings_eval)

lemma siblings_multi_turns:
  "read_iteration True (siblings_multi 4) = Inr (Continue (siblings_multi 5))"
  "read_iteration True (siblings_multi 5) = Inr (Continue (siblings_multi 11))"
  "read_iteration True (siblings_multi 11) = Inr (Continue (siblings_multi 14))"
  "read_iteration True (siblings_multi 14) = Inr (Continue (siblings_multi 20))"
  "read_iteration True (siblings_multi 20) = Inr (Continue (siblings_multi 23))"
  "read_iteration True (siblings_multi 23) = Inr (Break (siblings_multi 24))"
  by (simp_all add: decode_eval siblings_eval)

lemma siblings_multi_loop: "read_loop True (init_state True (siblings_at 4)) = Inr (siblings_multi 24)"
proof -
  have "read_loop True (siblings_multi 4) = read_loop True (siblings_multi 23)"
    by (simp add: siblings_multi_turns(1-5) [THEN read_loop_Continue])
  also have "\<dots> = Inr (siblings_multi 24)"
    by (rule read_loop_Break [OF siblings_multi_turns(6)])
  finally show ?thesis
    by (simp add: siblings_multi_def)
qed

lemma siblings_multi_read:
  "read True siblings_file =
     Inr (0, [(new_XMLElement ''root'')\<lparr>children := [1, 2]\<rparr>, new_XMLElement ''a'',
              new_XMLElement ''b''])"
  by (simp add: read_def siblings_prologue siblings_multi_loop)
    (simp add: siblings_multi_def init_state_def)

lemma siblings_multi_reaches: "reaches True (init_state True (siblings_at 4)) (siblings_multi 14)"
proof -
  have "reaches True (siblings_multi 4) (siblings_multi 14)"
    by (intro reaches_turn [OF _ siblings_multi_turns(3)] reaches_turn [OF _ siblings_multi_turns(2)]
        reaches_turn [OF _ siblings_multi_turns(1)] reaches_start)
  then show ?thesis
    by (simp add: siblings_multi_def)
qed

text \<open>The same file with a second end-tag for \<open>a\<close> where the start-tag of \<open>b\<close> was.\<close>

definition stray_end_file :: "byte list" where
  "stray_end_file = [0x41, 0x42, 0x58, 0x00, 0x10, 0x32, 0xFF, 0xFF, 0x00, 0x01, 0x61,
     0x33, 0x00, 0x00, 0x33, 0x00, 0x00]"

definition stray_end_at :: "nat \<Rightarrow> istream" where
  "stray_end_at n = \<lparr>data = stray_end_file, pos = n, eofbit = False, failbit = False\<rparr>"

definition stray_end_multi :: "nat \<Rightarrow> reader_state" where
  "stray_end_multi n =
     (let st = init_state True (stray_end_at n)
      in if n < 11 then st
         else if n < 14 then
           st\<lparr>interned_strings := [''a''],
              store := [(new_XMLElement ''root'')\<lparr>children := [1]\<rparr>, new_XMLElement ''a''],
              element_stack := [0, 1]\<rparr>
         else
           st\<lparr>interned_strings := [''a''],
              store := [(new_XMLElement ''root'')\<lparr>children := [1]\<rparr>, new_XMLElement ''a'']\<rparr>)"

lemmas stray_end_eval = stray_end_file_def stray_end_at_def stray_end_multi_def

theorem multi_root_wrapper_stays_witness:
  "read_prologue stray_end_file = Inr (stray_end_at 4) \<and>
   reaches True (init_state True (stray_end_at 4)) (stray_end_multi 14) \<and>
   element_stack (stray_end_multi 14) = [0] \<and>
   root (stray_end_multi 14) = Some 0 \<and>
   tag (store (stray_end_multi 14) ! 0) = ''root'' \<and>
   process_token True 0x32 ((stray_end_multi 5)\<lparr>stream := stray_end_at 6\<rparr>) =
     Inr (Continue (stray_end_multi 11)) \<and>
   hd (element_stack (stray_end_multi 11)) = 0 \<and>
   read_byte (stream (stray_end_multi 14)) = Inr (0x33, stray_end_at 15) \<and>
   read_iteration True (stray_end_multi 14) = Inl (AbxDecodeError ''Unexpected END_TAG'') \<and>
   read True stray_end_file = Inl (AbxDecodeError ''Unexpected END_TAG'') \<and>
   read_loop True (init_state True (siblings_at 4)) = Inr (siblings_multi 24) \<and>
   root (siblings_multi 24) = Some 0 \<and>
   read True siblings_file =
     Inr (0, [(new_XMLElement ''root'')\<lparr>children := [1, 2]\<rparr>, new_XMLElement ''a'',
              new_XMLElement ''b''])"
proof -
  let ?init = "init_state True (stray_end_at 4)"
  have pro: "read_prologue stray_end_file = Inr (stray_end_at 4)"
    by (simp add: read_prologue_def open_stream_def istream_read_def MAGIC_def
        skip_header_extension.simps read_byte_def seekg_cur_def stray_end_eval)
  have turns: "read_iteration True (stray_end_multi 4) = Inr (Continue (stray_end_multi 5))"
    "read_iteration True (stray_end_multi 5) = Inr (Continue (stray_end_multi 11))"
    "read_iteration True (stray_end_multi 11) = Inr (Continue (stray_end_multi 14))"
    by (simp_all add: decode_eval stray_end_eval)
  have i: "stray_end_multi 4 = ?init"
    by (simp add: stray_end_multi_def)
  have r1: "reaches True ?init (stray_end_multi 5)"
    unfolding i [symmetric] by (intro reaches_turn [OF _ turns(1)] reaches_start)
  have r3: "reaches True ?init (stray_end_multi 14)"
    by (intro reaches_turn [OF _ turns(3)] reaches_turn [OF _ turns(2)] r1)
  have pt: "process_token True 0x32 ((stray_end_multi 5)\<lparr>stream := stray_end_at 6\<rparr>) =
     Inr (Continue (stray_end_multi 11))"
    by (simp add: decode_eval stray_end_eval)
  have rb: "read_byte (stream (stray_end_multi 14)) = Inr (0x33, stray_end_at 15)"
    by (simp add: decode_eval stray_end_eval)
  have st14: "element_stack (stray_end_multi 14) = [0]"
    by (simp add: stray_end_eval init_state_def)
  have b: "root (stray_end_multi 14) = Some 0" "tag (store (stray_end_multi 14) ! 0) = ''root''"
    using multi_root_wrapper_stays [OF r3, THEN conjunct2, THEN conjunct2, THEN conjunct2, THEN conjunct1]
      multi_root_wrapper_stays [OF r3, THEN conjunct2, THEN conjunct2, THEN conjunct2, THEN conjunct2, THEN conjunct2, THEN conjunct1]
    by simp_all
  have hd11: "hd (element_stack (stray_end_multi 11)) = 0"
    using multi_root_wrapper_stays [OF r1, of "0x32" "stray_end_at 6" "stray_end_multi 11",
        THEN conjunct2, THEN conjunct2, THEN conjunct2, THEN conjunct2, THEN conjunct2, THEN conjunct2, THEN conjunct1] pt
    by simp
  have fail: "read_iteration True (stray_end_multi 14) = Inl (AbxDecodeError ''Unexpected END_TAG'') \<and>
      read True stray_end_file = Inl (AbxDecodeError ''Unexpected END_TAG'')"
    using multi_root_wrapper_stays [OF r3, of "0x33" "stray_end_at 15" _ stray_end_file,
        THEN conjunct2, THEN conjunct2, THEN conjunct2, THEN conjunct2, THEN conjunct2, THEN conjunct2, THEN conjunct2, THEN conjunct1] rb pro st14
    by simp
  have lp: "read_loop True (init_state True (siblings_at 4)) = Inr (siblings_multi 24)"
    by (rule siblings_multi_loop)
  have rt: "root (siblings_multi 24) = Some 0"
    using multi_root_wrapper_stays [OF reaches_start, of "siblings_at 4" _ _ _ _ "siblings_multi 24",
        THEN conjunct2, THEN conjunct2, THEN conjunct2, THEN conjunct2, THEN conjunct2, THEN conjunct2, THEN conjunct2, THEN conjunct2, THEN conjunct1] lp
    by simp
  show ?thesis
    using pro r3 st14 b pt hd11 rb fail lp rt siblings_multi_read by simp
qed

section \<open>A second top-level element in single-root mode\<close>

text \<open>
  \<open>descendant h a d\<close>: element \<open>d\<close> is in the tree under \<open>a\<close>, that is \<open>a\<close> itself or
  reached from it through \<^verbatim>\<open>children\<close>. The tree \<^verbatim>\<open>read\<close> returns is the tree under the
  returned pointer.
\<close>

inductive descendant :: "XMLElement list \<Rightarrow> nat \<Rightarrow> nat \<Rightarrow> bool" for h :: "XMLElement list" and a :: nat where
  descendant_self: "descendant h a a"
| descendant_child: "descendant h a b \<Longrightarrow> is_child h b c \<Longrightarrow> descendant h a c"

lemma descendant_ge: "descendant h a d \<Longrightarrow> store_wf h \<Longrightarrow> a \<le> d"
proof (induction rule: descendant.induct)
  case descendant_self
  show ?case by simp
next
  case (descendant_child b c)
  then have "b < c" by (auto simp: store_wf_def)
  with descendant_child show ?case by simp
qed

lemma handler_roots:
  "on_start_document dt st = Inr (Continue st') \<Longrightarrow> root st' = root st"
  "on_start_tag dt st = Inr (Continue st') \<Longrightarrow>
     root st' = (if element_stack st = [] then Some (length (store st)) else root st)"
  "on_end_tag mr dt st = Inr (Continue st') \<Longrightarrow> root st' = root st"
  "on_text st = Inr (Continue st') \<Longrightarrow> root st' = root st"
  "on_attribute mr dt st = Inr (Continue st') \<Longrightarrow> root st' = root st"
  "on_unknown dt st = Inr (Continue st') \<Longrightarrow> root st' = root st"
  by (auto simp: on_start_document_def on_start_tag_def on_end_tag_def on_text_def
      on_attribute_def on_unknown_def Let_def split: if_splits sum.splits)

lemma process_token_root:
  assumes "process_token mr token st = Inr (Continue st')"
  shows "root st' = root st \<or> root st' = Some (length (store st))"
proof -
  consider "on_start_document (token AND 0xf0) st = Inr (Continue st')"
    | "on_start_tag (token AND 0xf0) st = Inr (Continue st')"
    | "on_end_tag mr (token AND 0xf0) st = Inr (Continue st')"
    | "on_text st = Inr (Continue st')"
    | "on_attribute mr (token AND 0xf0) st = Inr (Continue st')"
    | "on_unknown (token AND 0xf0) st = Inr (Continue st')"
    using assms unfolding process_token_def Let_def
    by (auto split: if_splits simp: on_end_document_no_Continue)
  then show ?thesis
  proof cases
    case 2
    from handler_roots(2) [OF 2] show ?thesis by (simp split: if_splits)
  qed (simp_all add: handler_roots)
qed

lemma read_iteration_root:
  assumes "read_iteration mr st = Inr (Continue st')"
  shows "root st' = root st \<or> root st' = Some (length (store st))"
proof -
  from assms obtain token s1 where
    "process_token mr token (st\<lparr>stream := s1\<rparr>) = Inr (Continue st')"
    by (auto simp: read_iteration_def split: if_splits sum.splits)
  from process_token_root [OF this] show ?thesis by simp
qed

text \<open>Once assigned, \<^verbatim>\<open>root\<close> points to the same or to a later element.\<close>

lemma reaches_root:
  "reaches mr st0 st \<Longrightarrow> root st0 = Some q \<Longrightarrow> q \<le> length (store st0) \<Longrightarrow>
     \<exists>q'. root st = Some q' \<and> q \<le> q'"
proof (induction rule: reaches.induct)
  case reaches_start
  then show ?case by simp
next
  case (reaches_turn st st')
  then obtain q' where q': "root st = Some q'" "q \<le> q'"
    by blast
  have "length (store st0) \<le> length (store st)"
    using reaches_tags [OF reaches_turn.hyps(1)] by simp
  with reaches_turn.prems have "q \<le> length (store st)" by simp
  with read_iteration_root [OF reaches_turn.hyps(2)] q' show ?case
    by auto
qed


lemma read_Inr:
  "read_prologue file = Inr s \<Longrightarrow> read mr file = Inr (r, h) \<Longrightarrow>
     \<exists>st. read_loop mr (init_state mr s) = Inr st \<and> root st = Some r \<and> store st = h"
  by (auto simp: read_def split: sum.splits option.splits)

text \<open>
  Claim C9. In single-root mode, at a head of the loop where the stack is empty and
  \<^verbatim>\<open>root\<close> is already assigned (the earlier root element is closed), a start-tag token
  of the interned-string type whose name resolves does not fail: it makes a new element,
  which becomes \<^verbatim>\<open>root\<close> in place of the earlier one and is alone on the stack. From
  then on \<^verbatim>\<open>root\<close> is that element or a later one, and no element made before the token,
  the earlier root and its subtree among them, is in the tree under \<^verbatim>\<open>root\<close>; so they
  are absent from the tree that \<^verbatim>\<open>read\<close> returns.
\<close>

theorem second_root_replaces_first:
  assumes "reaches False (init_state False s) st"
    and "element_stack st = []" and "root st = Some r"
    and "token AND 0x0f = START_TAG" and "token AND 0xf0 = TYPE_STRING_INTERNED"
    and "read_interned_string s1 (interned_strings st) = Inr (tag_name, s2, tbl)"
  shows "process_token False token (st\<lparr>stream := s1\<rparr>) = Inr (Continue (st\<lparr>stream := s2, interned_strings := tbl,
                store := store st @ [new_XMLElement tag_name],
                root := Some (length (store st)), element_stack := [length (store st)]\<rparr>)) \<and>
         r < length (store st) \<and>
         (read_byte (stream st) = Inr (token, s1) \<longrightarrow>
            read_iteration False st = Inr (Continue (st\<lparr>stream := s2, interned_strings := tbl,
                store := store st @ [new_XMLElement tag_name],
                root := Some (length (store st)), element_stack := [length (store st)]\<rparr>)) \<and>
            read_loop False (init_state False s) = read_loop False (st\<lparr>stream := s2, interned_strings := tbl,
                store := store st @ [new_XMLElement tag_name],
                root := Some (length (store st)), element_stack := [length (store st)]\<rparr>)) \<and>
         (reaches False (st\<lparr>stream := s2, interned_strings := tbl,
                store := store st @ [new_XMLElement tag_name],
                root := Some (length (store st)), element_stack := [length (store st)]\<rparr>) st'' \<longrightarrow>
            (\<exists>r'. root st'' = Some r' \<and> length (store st) \<le> r' \<and> \<not> descendant (store st'') r' r \<and>
               (\<forall>d. descendant (store st'') r' d \<longrightarrow> length (store st) \<le> d))) \<and>
         (read_byte (stream st) = Inr (token, s1) \<and> read_prologue file = Inr s \<and>
            read False file = Inr (r', h) \<longrightarrow>
              length (store st) \<le> r' \<and> \<not> descendant h r' r \<and>
              (\<forall>d. descendant h r' d \<longrightarrow> length (store st) \<le> d))"
proof -
  let ?new = "(st\<lparr>stream := s2, interned_strings := tbl,
                store := store st @ [new_XMLElement tag_name],
                root := Some (length (store st)), element_stack := [length (store st)]\<rparr>)"
  let ?st1 = "st\<lparr>stream := s1\<rparr>"
  have inv: "state_inv False st"
    using reaches_inv [OF assms(1) state_inv_init] .
  have A: "process_token False token ?st1 = Inr (Continue ?new)"
    using assms(2,4,5,6) by (simp add: process_token_def on_start_tag_def Let_def)
  have B: "r < length (store st)"
    using inv assms(3) by (simp add: state_inv_def)
  have inv_new: "state_inv False ?new"
    using process_token_inv [OF _ A] inv by (simp add: state_inv_stream)
  have later: "\<exists>q. root st3 = Some q \<and> length (store st) \<le> q \<and> \<not> descendant (store st3) q r \<and>
               (\<forall>d. descendant (store st3) q d \<longrightarrow> length (store st) \<le> d)"
    if re: "reaches False ?new st3" for st3
  proof -
    from reaches_root [OF re, of "length (store st)"] obtain q where
      q: "root st3 = Some q" "length (store st) \<le> q"
      by auto
    have wf: "store_wf (store st3)"
      using reaches_inv [OF re inv_new] by (simp add: state_inv_def)
    have ge: "length (store st) \<le> d" if "descendant (store st3) q d" for d
      using descendant_ge [OF that wf] q(2) by simp
    then have "\<not> descendant (store st3) q r"
      using B by (auto simp: not_le [symmetric])
    with q ge show ?thesis by blast
  qed
  have C: "read_byte (stream st) = Inr (token, s1) \<longrightarrow>
            read_iteration False st = Inr (Continue ?new) \<and>
            read_loop False (init_state False s) = read_loop False ?new"
  proof
    assume rb: "read_byte (stream st) = Inr (token, s1)"
    have it: "read_iteration False st = Inr (Continue ?new)"
      using read_iteration_token [OF rb, of False] A by simp
    show "read_iteration False st = Inr (Continue ?new) \<and>
            read_loop False (init_state False s) = read_loop False ?new"
      using it read_loop_from_reaches [OF assms(1)] read_loop_Continue [OF it] by simp
  qed
  have D: "reaches False ?new st'' \<longrightarrow>
            (\<exists>r'. root st'' = Some r' \<and> length (store st) \<le> r' \<and> \<not> descendant (store st'') r' r \<and>
               (\<forall>d. descendant (store st'') r' d \<longrightarrow> length (store st) \<le> d))"
    using later by blast
  have E: "read_byte (stream st) = Inr (token, s1) \<and> read_prologue file = Inr s \<and>
            read False file = Inr (r', h) \<longrightarrow>
              length (store st) \<le> r' \<and> \<not> descendant h r' r \<and>
              (\<forall>d. descendant h r' d \<longrightarrow> length (store st) \<le> d)"
  proof
    assume h: "read_byte (stream st) = Inr (token, s1) \<and> read_prologue file = Inr s \<and>
            read False file = Inr (r', h)"
    with read_Inr [of "file" s False r' h] obtain st_end where
      e: "read_loop False (init_state False s) = Inr st_end" "root st_end = Some r'"
        "store st_end = h"
      by blast
    from h C e(1) have "read_loop False ?new = Inr st_end"
      by simp
    from read_loop_reaches [OF this] obtain hd_st where
      re: "reaches False ?new hd_st" and br: "read_iteration False hd_st = Inr (Break st_end)"
      by blast
    from later [OF re] read_iteration_Break [OF br] e(2,3)
    show "length (store st) \<le> r' \<and> \<not> descendant h r' r \<and>
              (\<forall>d. descendant h r' d \<longrightarrow> length (store st) \<le> d)"
      by auto
  qed
  from A B C D E show ?thesis
    by (intro conjI)
qed


text \<open>The states of the single-root decode of \<open>siblings_file\<close>, by the position of the stream.\<close>

definition siblings_single :: "nat \<Rightarrow> reader_state" where
  "siblings_single n =
     (let st = init_state False (siblings_at n);
          a = new_XMLElement ''a''; b = new_XMLElement ''b''
      in if n < 11 then st
         else if n < 14 then
           st\<lparr>interned_strings := [''a''], store := [a], element_stack := [0], root := Some 0\<rparr>
         else if n < 20 then
           st\<lparr>interned_strings := [''a''], store := [a], root_closed := True, root := Some 0\<rparr>
         else if n < 23 then
           st\<lparr>interned_strings := [''a'', ''b''], store := [a, b], root_closed := True,
              element_stack := [1], root := Some 1\<rparr>
         else
           st\<lparr>interned_strings := [''a'', ''b''], store := [a, b], root_closed := True,
              root := Some 1\<rparr>)"

lemma siblings_single_turns:
  "read_iteration False (siblings_single 4) = Inr (Continue (siblings_single 5))"
  "read_iteration False (siblings_single 5) = Inr (Continue (siblings_single 11))"
  "read_iteration False (siblings_single 11) = Inr (Continue (siblings_single 14))"
  "read_iteration False (siblings_single 14) = Inr (Continue (siblings_single 20))"
  "read_iteration False (siblings_single 20) = Inr (Continue (siblings_single 23))"
  by (simp_all add: decode_eval siblings_eval siblings_single_def)

lemma siblings_single_end:
  "read_iteration False (siblings_single 23) = Inr (Break (siblings_single 24))"
  by (simp add: decode_eval siblings_eval siblings_single_def)

lemma siblings_single_loop:
  "read_loop False (init_state False (siblings_at 4)) = Inr (siblings_single 24)"
proof -
  have "read_loop False (siblings_single 4) = read_loop False (siblings_single 23)"
    by (simp add: siblings_single_turns [THEN read_loop_Continue])
  also have "\<dots> = Inr (siblings_single 24)"
    by (rule read_loop_Break [OF siblings_single_end])
  finally show ?thesis
    by (simp add: siblings_single_def)
qed

lemma siblings_single_read:
  "read False siblings_file = Inr (1, [new_XMLElement ''a'', new_XMLElement ''b''])"
  by (simp add: read_def siblings_prologue siblings_single_loop)
    (simp add: siblings_single_def init_state_def)

lemma siblings_single_reaches:
  "reaches False (init_state False (siblings_at 4)) (siblings_single 14)"
proof -
  have "reaches False (siblings_single 4) (siblings_single 14)"
    by (intro reaches_turn [OF _ siblings_single_turns(3)]
        reaches_turn [OF _ siblings_single_turns(2)]
        reaches_turn [OF _ siblings_single_turns(1)] reaches_start)
  then show ?thesis
    by (simp add: siblings_single_def)
qed

theorem second_root_replaces_first_witness:
  "reaches False (init_state False (siblings_at 4)) (siblings_single 14) \<and>
   element_stack (siblings_single 14) = [] \<and>
   root (siblings_single 14) = Some 0 \<and>
   root_closed (siblings_single 14) \<and>
   read_byte (stream (siblings_single 14)) = Inr (0x32, siblings_at 15) \<and>
   read_interned_string (siblings_at 15) (interned_strings (siblings_single 14)) =
     Inr (''b'', siblings_at 20, [''a'', ''b'']) \<and>
   process_token False 0x32 ((siblings_single 14)\<lparr>stream := siblings_at 15\<rparr>) =
     Inr (Continue (siblings_single 20)) \<and>
   root (siblings_single 20) = Some 1 \<and>
   element_stack (siblings_single 20) = [1] \<and>
   read False siblings_file = Inr (1, [new_XMLElement ''a'', new_XMLElement ''b'']) \<and>
   \<not> descendant [new_XMLElement ''a'', new_XMLElement ''b''] 1 0"
proof -
  note r = siblings_single_reaches
  have st: "element_stack (siblings_single 14) = []" "root (siblings_single 14) = Some 0"
    "root_closed (siblings_single 14)" "root (siblings_single 20) = Some 1"
    "element_stack (siblings_single 20) = [1]"
    by (simp_all add: siblings_single_def init_state_def)
  have rb: "read_byte (stream (siblings_single 14)) = Inr (0x32, siblings_at 15)"
    by (simp add: decode_eval siblings_eval siblings_single_def)
  have ri: "read_interned_string (siblings_at 15) (interned_strings (siblings_single 14)) =
     Inr (''b'', siblings_at 20, [''a'', ''b''])"
    by (simp add: decode_eval siblings_eval siblings_single_def)
  have new: "(siblings_single 14)\<lparr>stream := siblings_at 20, interned_strings := [''a'', ''b''],
       store := store (siblings_single 14) @ [new_XMLElement ''b''],
       root := Some (length (store (siblings_single 14))),
       element_stack := [length (store (siblings_single 14))]\<rparr> = siblings_single 20"
    by (simp add: siblings_single_def init_state_def siblings_at_def)
  have tok: "(0x32 :: byte) AND 0x0f = START_TAG" "(0x32 :: byte) AND 0xf0 = TYPE_STRING_INTERNED"
    by simp_all
  note inst = second_root_replaces_first [OF r st(1) st(2) tok ri, unfolded new]
  have pt: "process_token False 0x32 ((siblings_single 14)\<lparr>stream := siblings_at 15\<rparr>) =
     Inr (Continue (siblings_single 20))"
    using inst [THEN conjunct1] .
  have "\<not> descendant [new_XMLElement ''a'', new_XMLElement ''b''] 1 0"
    using inst [of _ siblings_file 1 "[new_XMLElement ''a'', new_XMLElement ''b'']",
        THEN conjunct2, THEN conjunct2, THEN conjunct2, THEN conjunct2]
      rb siblings_prologue siblings_single_read
    by simp
  with r st rb ri pt siblings_single_read show ?thesis
    by simp
qed

text \<open>
  Claim C1. The file \<open>siblings_file\<close> has two top-level start/end-tag pairs, \<open>a\<close>
  and \<open>b\<close>, and no outer element. Decoding it succeeds in multi-root mode, with both
  under the wrapper, and it succeeds in single-root mode as well: no error is raised, the
  second start-tag replaces the root, and the result is \<open>b\<close> alone.
\<close>

theorem single_root_accepts_siblings:
  "read True siblings_file =
     Inr (0, [(new_XMLElement ''root'')\<lparr>children := [1, 2]\<rparr>, new_XMLElement ''a'',
              new_XMLElement ''b'']) \<and>
   read False siblings_file = Inr (1, [new_XMLElement ''a'', new_XMLElement ''b'']) \<and>
   tag ([new_XMLElement ''a'', new_XMLElement ''b''] ! 1) = ''b'' \<and>
   children ([new_XMLElement ''a'', new_XMLElement ''b''] ! 1) = []"
  by (simp add: siblings_multi_read siblings_single_read) (simp add: new_XMLElement_def)

section \<open>Text tokens\<close>

lemma process_token_TEXT:
  "token AND 0x0f = TEXT \<Longrightarrow> process_token mr token st = on_text st"
  by (simp add: process_token_def)

text \<open>
  Claim C6. A text token whose length-prefixed payload is read and consists of whitespace
  characters only (the empty payload too) changes nothing but the position of the
  stream: the store, and so the text of every element, stays as it was, and no error is
  raised, whatever the stack, empty or not. The test for whitespace comes before the test
  for an empty stack: a payload that is not all whitespace fails with "Unexpected TEXT
  outside of element" on an empty stack, and otherwise is appended to the text of the top
  of the stack.
\<close>

theorem whitespace_text_is_dropped:
  assumes "token AND 0x0f = TEXT" and "read_string_raw s1 = Inr (payload, s2)"
  shows "(list_all isspace payload \<longrightarrow>
            process_token mr token (st\<lparr>stream := s1\<rparr>) = Inr (Continue (st\<lparr>stream := s2\<rparr>)) \<and>
            store (st\<lparr>stream := s2\<rparr>) = store st \<and>
            (read_byte (stream st) = Inr (token, s1) \<longrightarrow>
               read_iteration mr st = Inr (Continue (st\<lparr>stream := s2\<rparr>)))) \<and>
         (\<not> list_all isspace payload \<and> element_stack st = [] \<longrightarrow>
            process_token mr token (st\<lparr>stream := s1\<rparr>) =
              Inl (AbxDecodeError ''Unexpected TEXT outside of element'')) \<and>
         (\<not> list_all isspace payload \<and> element_stack st \<noteq> [] \<longrightarrow>
            process_token mr token (st\<lparr>stream := s1\<rparr>) =
              Inr (Continue (st\<lparr>stream := s2,
                store := (store st)[last (element_stack st) :=
                  (store st ! last (element_stack st))\<lparr>text_str :=
                     text_str (store st ! last (element_stack st)) @ payload\<rparr>]\<rparr>)))"
proof (intro conjI impI)
  let ?st1 = "st\<lparr>stream := s1\<rparr>"
  have pt: "process_token mr token ?st1 = on_text ?st1"
    using assms(1) by (rule process_token_TEXT)
  {
    assume ws: "list_all isspace payload"
    then show A: "process_token mr token ?st1 = Inr (Continue (st\<lparr>stream := s2\<rparr>))"
      using assms(2) by (simp add: pt on_text_def)
    show "store (st\<lparr>stream := s2\<rparr>) = store st"
      by simp
    assume rb: "read_byte (stream st) = Inr (token, s1)"
    show "read_iteration mr st = Inr (Continue (st\<lparr>stream := s2\<rparr>))"
      using read_iteration_token [OF rb, of mr] A by simp
  }
  {
    assume "\<not> list_all isspace payload \<and> element_stack st = []"
    then show "process_token mr token ?st1 =
        Inl (AbxDecodeError ''Unexpected TEXT outside of element'')"
      using assms(2) by (simp add: pt on_text_def)
  }
  {
    assume "\<not> list_all isspace payload \<and> element_stack st \<noteq> []"
    then show "process_token mr token ?st1 =
        Inr (Continue (st\<lparr>stream := s2,
                store := (store st)[last (element_stack st) :=
                  (store st ! last (element_stack st))\<lparr>text_str :=
                     text_str (store st ! last (element_stack st)) @ payload\<rparr>]\<rparr>))"
      using assms(2) by (simp add: pt on_text_def Let_def)
  }
qed


text \<open>
  A file with three text tokens before any element: a space and a newline, the empty
  run, and the letter \<open>x\<close>.
\<close>

definition blank_text_file :: "byte list" where
  "blank_text_file = [0x41, 0x42, 0x58, 0x00, 0x10, 0x04, 0x00, 0x02, 0x20, 0x0A,
     0x04, 0x00, 0x00, 0x04, 0x00, 0x01, 0x78]"

definition blank_text_at :: "nat \<Rightarrow> istream" where
  "blank_text_at n = \<lparr>data = blank_text_file, pos = n, eofbit = False, failbit = False\<rparr>"

lemmas blank_text_eval = blank_text_file_def blank_text_at_def

theorem whitespace_text_is_dropped_witness:
  "read_byte (stream (init_state False (blank_text_at 5))) = Inr (0x04, blank_text_at 6) \<and>
   read_string_raw (blank_text_at 6) = Inr ([CHR 0x20, CHR 0x0A], blank_text_at 10) \<and>
   list_all isspace [CHR 0x20, CHR 0x0A] \<and>
   element_stack (init_state False (blank_text_at 5)) = [] \<and>
   read_iteration False (init_state False (blank_text_at 5)) =
     Inr (Continue (init_state False (blank_text_at 10))) \<and>
   read_string_raw (blank_text_at 11) = Inr ([], blank_text_at 13) \<and>
   process_token False 0x04 ((init_state False (blank_text_at 10))\<lparr>stream := blank_text_at 11\<rparr>) =
     Inr (Continue (init_state False (blank_text_at 13))) \<and>
   read_string_raw (blank_text_at 14) = Inr (''x'', blank_text_at 17) \<and>
   \<not> list_all isspace ''x'' \<and>
   process_token False 0x04 ((init_state False (blank_text_at 13))\<lparr>stream := blank_text_at 14\<rparr>) =
     Inl (AbxDecodeError ''Unexpected TEXT outside of element'') \<and>
   process_token False 0x04 (open_a\<lparr>stream := blank_text_at 14\<rparr>) =
     Inr (Continue (open_a\<lparr>stream := blank_text_at 17,
       store := [(new_XMLElement ''a'')\<lparr>text_str := ''x''\<rparr>]\<rparr>))"
proof -
  have tok: "(0x04 :: byte) AND 0x0f = TEXT"
    by simp
  have rb: "read_byte (stream (init_state False (blank_text_at 5))) = Inr (0x04, blank_text_at 6)"
    by (simp add: init_state_def read_byte_def istream_read_def blank_text_eval)
  have rs1: "read_string_raw (blank_text_at 6) = Inr ([CHR 0x20, CHR 0x0A], blank_text_at 10)"
    by (simp add: read_string_raw_def read_unsigned_short_def istream_read_def be_nat_def
        byte_to_char_def blank_text_eval)
  have rs2: "read_string_raw (blank_text_at 11) = Inr ([], blank_text_at 13)"
    by (simp add: read_string_raw_def read_unsigned_short_def istream_read_def be_nat_def
        byte_to_char_def blank_text_eval)
  have rs3: "read_string_raw (blank_text_at 14) = Inr (''x'', blank_text_at 17)"
    by (simp add: read_string_raw_def read_unsigned_short_def istream_read_def be_nat_def
        byte_to_char_def blank_text_eval)
  have ws: "list_all isspace [CHR 0x20, CHR 0x0A]" "list_all isspace []" "\<not> list_all isspace ''x''"
    by (simp_all add: isspace_def)
  have st: "element_stack (init_state False s) = []"
    "(init_state False s)\<lparr>stream := s'\<rparr> = init_state False s'" for s s'
    by (simp_all add: init_state_def)
  have oa: "element_stack open_a = [0]" "store open_a = [new_XMLElement ''a'']"
    "text_str (new_XMLElement ''a'') = []"
    by (simp_all add: open_a_def new_XMLElement_def)
  have a: "read_iteration False (init_state False (blank_text_at 5)) =
     Inr (Continue (init_state False (blank_text_at 10)))"
    using whitespace_text_is_dropped [OF tok rs1, of False "init_state False (blank_text_at 5)",
        THEN conjunct1] ws rb
    by (simp add: st)
  have b: "process_token False 0x04 ((init_state False (blank_text_at 10))\<lparr>stream := blank_text_at 11\<rparr>) =
     Inr (Continue (init_state False (blank_text_at 13)))"
    using whitespace_text_is_dropped [OF tok rs2, of False "init_state False (blank_text_at 10)",
        THEN conjunct1] ws
    by (simp add: st)
  have c: "process_token False 0x04 ((init_state False (blank_text_at 13))\<lparr>stream := blank_text_at 14\<rparr>) =
     Inl (AbxDecodeError ''Unexpected TEXT outside of element'')"
    using whitespace_text_is_dropped [OF tok rs3, of False "init_state False (blank_text_at 13)",
        THEN conjunct2, THEN conjunct1] ws
    by (simp add: st)
  have d: "process_token False 0x04 (open_a\<lparr>stream := blank_text_at 14\<rparr>) =
     Inr (Continue (open_a\<lparr>stream := blank_text_at 17,
       store := [(new_XMLElement ''a'')\<lparr>text_str := ''x''\<rparr>]\<rparr>))"
    using whitespace_text_is_dropped [OF tok rs3, of False open_a,
        THEN conjunct2, THEN conjunct2] ws
    by (simp add: oa)
  from rb rs1 ws st(1) a rs2 b rs3 c d show ?thesis
    by simp
qed

section \<open>The intern table during a decode\<close>

lemma read_interned_string_cases:
  assumes "read_interned_string s tbl = Inr (v, s', tbl')"
  obtains reference s1 where "read_short s = Inr (reference, s1)"
    and "sint reference = - 1 \<Longrightarrow> read_string_raw s1 = Inr (v, s') \<and> tbl' = tbl @ [v]"
    and "sint reference \<noteq> - 1 \<Longrightarrow> s' = s1 \<and> tbl' = tbl \<and> 0 \<le> sint reference \<and>
           nat (sint reference) < length tbl \<and> v = tbl ! nat (sint reference)"
  using assms
  by (auto simp: read_interned_string_def split: sum.splits prod.splits if_splits)





















section \<open>References into the intern table\<close>

text \<open>
  A file whose first start-tag refers to entry 5 of the still empty intern table, and one whose
  first start-tag carries the reference \<open>-2\<close>.
\<close>

definition bad_reference_file :: "byte list" where
  "bad_reference_file = [0x41, 0x42, 0x58, 0x00, 0x10, 0x32, 0x00, 0x05]"

definition negative_reference_file :: "byte list" where
  "negative_reference_file = [0x41, 0x42, 0x58, 0x00, 0x10, 0x32, 0xFF, 0xFE]"

lemmas prologue_eval = read_prologue_def open_stream_def istream_read_def MAGIC_def
  skip_header_extension.simps read_byte_def seekg_cur_def

lemma read_two_turns:
  assumes "read_prologue file = Inr s"
    and "read_iteration mr (init_state mr s) = Inr (Continue st1)"
    and "read_iteration mr st1 = Inl e"
  shows "read mr file = Inl e"
  using assms
  by (simp add: read_def read_loop_Continue [OF assms(2)] read_loop_Inl [OF assms(3)])

text \<open>
  Claim C2. \<^verbatim>\<open>read_interned_string\<close> reads a signed 16-bit reference. With reference
  \<open>-1\<close> it reads a length-prefixed string, appends it to the table and returns it. With a
  reference that is non-negative and below the size of the table it returns that entry, and
  leaves the table as it was. With any other reference, non-negative and out of range or
  negative and not \<open>-1\<close>, the source evaluates \<^verbatim>\<open>interned_strings[reference]\<close> with no
  bounds check: there is no error for an invalid reference, the access is outside the vector,
  which the model reports as \<open>UndefinedBehaviour\<close>.
\<close>

theorem intern_reference_unchecked:
  assumes "read_short s = Inr (reference, s1)"
  shows "(sint reference = - 1 \<and> read_string_raw s1 = Inr (v, s2) \<longrightarrow>
            read_interned_string s tbl = Inr (v, s2, tbl @ [v])) \<and>
         (0 \<le> sint reference \<and> nat (sint reference) < length tbl \<longrightarrow>
            read_interned_string s tbl = Inr (tbl ! nat (sint reference), s1, tbl)) \<and>
         (sint reference \<noteq> - 1 \<and> \<not> (0 \<le> sint reference \<and> nat (sint reference) < length tbl) \<longrightarrow>
            read_interned_string s tbl =
              Inl (UndefinedBehaviour ''interned_strings[reference] out of range''))"
  using assms by (simp add: read_interned_string_def)

theorem intern_reference_unchecked_witness:
  "read_short \<lparr>data = bad_reference_file, pos = 6, eofbit = False, failbit = False\<rparr> =
     Inr (5, \<lparr>data = bad_reference_file, pos = 8, eofbit = False, failbit = False\<rparr>) \<and>
   read_interned_string \<lparr>data = bad_reference_file, pos = 6, eofbit = False, failbit = False\<rparr> [] =
     Inl (UndefinedBehaviour ''interned_strings[reference] out of range'') \<and>
   read_interned_string \<lparr>data = bad_reference_file, pos = 6, eofbit = False, failbit = False\<rparr>
       [''a'', ''b'', ''c'', ''d'', ''e''] =
     Inl (UndefinedBehaviour ''interned_strings[reference] out of range'') \<and>
   read_interned_string \<lparr>data = bad_reference_file, pos = 6, eofbit = False, failbit = False\<rparr>
       [''a'', ''b'', ''c'', ''d'', ''e'', ''f''] =
     Inr (''f'', \<lparr>data = bad_reference_file, pos = 8, eofbit = False, failbit = False\<rparr>,
       [''a'', ''b'', ''c'', ''d'', ''e'', ''f'']) \<and>
   read False bad_reference_file =
     Inl (UndefinedBehaviour ''interned_strings[reference] out of range'') \<and>
   read True bad_reference_file =
     Inl (UndefinedBehaviour ''interned_strings[reference] out of range'') \<and>
   sint (0xFFFE :: 16 word) = - 2 \<and>
   read_short \<lparr>data = negative_reference_file, pos = 6, eofbit = False, failbit = False\<rparr> =
     Inr (0xFFFE, \<lparr>data = negative_reference_file, pos = 8, eofbit = False, failbit = False\<rparr>) \<and>
   read False negative_reference_file =
     Inl (UndefinedBehaviour ''interned_strings[reference] out of range'')"
proof -
  let ?b = "\<lambda>n. \<lparr>data = bad_reference_file, pos = n, eofbit = False, failbit = False\<rparr>"
  let ?n = "\<lambda>n. \<lparr>data = negative_reference_file, pos = n, eofbit = False, failbit = False\<rparr>"
  let ?ub = "Inl (UndefinedBehaviour ''interned_strings[reference] out of range'')"
  have p: "read_prologue bad_reference_file = Inr (?b 4)"
    "read_prologue negative_reference_file = Inr (?n 4)"
    by (simp_all add: prologue_eval bad_reference_file_def negative_reference_file_def)
  have t1: "read_iteration mr (init_state mr (?b 4)) = Inr (Continue (init_state mr (?b 5)))"
    "read_iteration mr (init_state mr (?n 4)) = Inr (Continue (init_state mr (?n 5)))" for mr
    by (simp_all add: decode_eval bad_reference_file_def negative_reference_file_def)
  have t2: "read_iteration False (init_state False (?b 5)) = ?ub"
    "read_iteration True (init_state True (?b 5)) = ?ub"
    "read_iteration False (init_state False (?n 5)) = ?ub"
    by (simp_all add: decode_eval bad_reference_file_def negative_reference_file_def)
  have a: "read_short (?b 6) = Inr (5, ?b 8)"
    "read_short (?n 6) = Inr (0xFFFE, ?n 8)"
    by (simp_all add: read_short_def istream_read_def be_nat_def bad_reference_file_def
        negative_reference_file_def)
  have five: "sint (5 :: 16 word) = 5"
    by simp
  have b: "read_interned_string (?b 6) [] = ?ub"
    "read_interned_string (?b 6) [''a'', ''b'', ''c'', ''d'', ''e''] = ?ub"
    using intern_reference_unchecked [OF a(1), THEN conjunct2, THEN conjunct2, of "[]"]
      intern_reference_unchecked [OF a(1), THEN conjunct2, THEN conjunct2,
        of "[''a'', ''b'', ''c'', ''d'', ''e'']"]
    by (simp_all add: five)
  have b': "read_interned_string (?b 6) [''a'', ''b'', ''c'', ''d'', ''e'', ''f''] =
      Inr (''f'', ?b 8, [''a'', ''b'', ''c'', ''d'', ''e'', ''f''])"
    using intern_reference_unchecked [OF a(1), THEN conjunct2, THEN conjunct1,
        of "[''a'', ''b'', ''c'', ''d'', ''e'', ''f'']"]
    by (simp add: five)
  have c: "sint (0xFFFE :: 16 word) = - 2"
    by simp
  from a b b' c read_two_turns [OF p(1) t1(1) t2(1)] read_two_turns [OF p(1) t1(1) t2(2)]
    read_two_turns [OF p(2) t1(2) t2(3)]
  show ?thesis
    by simp
qed

section \<open>The end of the input\<close>

lemma skip_header_extension_good:
  "skip_header_extension s = Inr s' \<Longrightarrow> data s' = data s \<and> \<not> eofbit s' \<and> \<not> failbit s'"
proof (induction s rule: skip_header_extension.induct)
  case (1 s)
  show ?case
  proof (cases "read_byte s")
    case (Inl e)
    with "1.prems" show ?thesis
      by (subst (asm) skip_header_extension.simps) simp
  next
    case (Inr p)
    obtain token s1 where p: "p = (token, s1)" by (cases p)
    from read_byte_Inr [of s token s1] Inr p
    have s1: "data s1 = data s" "\<not> eofbit s1" "\<not> failbit s1" "pos s1 = pos s + 1"
      by simp_all
    show ?thesis
    proof (cases "token AND 0x0f = START_DOCUMENT")
      case True
      with Inr p "1.prems" have "s' = seekg_cur (- 1) s1"
        by (subst (asm) skip_header_extension.simps) simp
      with s1 show ?thesis
        by (simp add: seekg_cur_def Let_def)
    next
      case False
      show ?thesis
      proof (cases "skip_extension_data token s1")
        case (Inl e)
        with Inr p False "1.prems" show ?thesis
          by (subst (asm) skip_header_extension.simps) simp
      next
        case r: (Inr s2)
        with Inr p False "1.prems" have "skip_header_extension s2 = Inr s'"
          by (subst (asm) skip_header_extension.simps) simp
        with "1.IH" Inr p False r have "data s' = data s2 \<and> \<not> eofbit s' \<and> \<not> failbit s'"
          by simp
        moreover have "data s2 = data s1"
          using skip_extension_data_advanced [OF s1(3) s1(2) r] by (simp add: advanced_def)
        ultimately show ?thesis
          using s1 by simp
      qed
    qed
  qed
qed

lemma read_prologue_good:
  assumes "read_prologue file = Inr s"
  shows "data s = file \<and> \<not> eofbit s \<and> \<not> failbit s"
proof -
  from assms obtain m s1 where
    m: "istream_read 4 (open_stream file) = (Some m, s1)" and
    sk: "skip_header_extension s1 = Inr s"
    by (auto simp: read_prologue_def split: prod.splits option.splits if_splits)
  from istream_read_Some [OF m] have "data s1 = file"
    by (simp add: open_stream_def)
  with skip_header_extension_good [OF sk] show ?thesis
    by simp
qed

lemma reaches_stream:
  "reaches mr st0 st \<Longrightarrow> \<not> eofbit (stream st0) \<Longrightarrow> \<not> failbit (stream st0) \<Longrightarrow>
     data (stream st) = data (stream st0) \<and> \<not> eofbit (stream st) \<and> \<not> failbit (stream st)"
proof (induction rule: reaches.induct)
  case reaches_start
  then show ?case by simp
next
  case (reaches_turn st st')
  with read_iteration_Continue [OF reaches_turn.hyps(2)] show ?case
    by simp
qed

lemma read_byte_at_end:
  "\<not> eofbit s \<Longrightarrow> \<not> failbit s \<Longrightarrow> length (data s) \<le> pos s \<Longrightarrow>
     read_byte s = Inl (RuntimeError ''Could not read byte'')"
  by (simp add: read_byte_def istream_read_def)

lemma process_token_Break:
  assumes "process_token mr token st = Inr (Break st')"
  shows "token AND 0x0f = END_DOCUMENT \<and> token AND 0xf0 = TYPE_NULL \<and> st' = st \<and>
         no_open_element mr (element_stack st)"
  using assms unfolding process_token_def Let_def
  by (auto simp: on_start_document_def on_end_document_def on_start_tag_def on_end_tag_def
      on_text_def on_attribute_def on_unknown_def Let_def
      split: if_splits sum.splits prod.splits)

text \<open>
  Claim C4. The loop tests \<^verbatim>\<open>stream.eof()\<close> before it reads a token. The flag is raised by
  a read that comes short, and a read that comes short throws, so at the head of every turn
  the flag is down: the test never ends the loop. The loop ends without an error by the
  end-document token and by nothing else. When the input is exhausted at a token boundary the
  next \<^verbatim>\<open>read_byte\<close> throws \<open>Could not read byte\<close>, and \<^verbatim>\<open>read\<close> fails with it, also
  when a root has been assigned.
\<close>

theorem eof_test_never_ends_the_loop:
  assumes "read_prologue file = Inr s" and "reaches mr (init_state mr s) st"
  shows "data (stream st) = file \<and> \<not> eof (stream st) \<and>
         (read_iteration mr st = Inr (Break st') \<longrightarrow>
            (\<exists>token s1. read_byte (stream st) = Inr (token, s1) \<and>
               token AND 0x0f = END_DOCUMENT \<and> token AND 0xf0 = TYPE_NULL \<and>
               st' = st\<lparr>stream := s1\<rparr>)) \<and>
         (length file \<le> pos (stream st) \<longrightarrow>
            read_iteration mr st = Inl (RuntimeError ''Could not read byte'') \<and>
            read_loop mr (init_state mr s) = Inl (RuntimeError ''Could not read byte'') \<and>
            read mr file = Inl (RuntimeError ''Could not read byte''))"
proof -
  have s: "data s = file" "\<not> eofbit s" "\<not> failbit s"
    using read_prologue_good [OF assms(1)] by simp_all
  have i: "stream (init_state mr s) = s"
    by (simp add: init_state_def Let_def)
  have g: "data (stream st) = file" "\<not> eofbit (stream st)" "\<not> failbit (stream st)"
    using reaches_stream [OF assms(2)] s by (simp_all add: i)
  have A: "data (stream st) = file" and B: "\<not> eof (stream st)"
    using g by (simp_all add: eof_def)
  have C: "read_iteration mr st = Inr (Break st') \<longrightarrow>
            (\<exists>token s1. read_byte (stream st) = Inr (token, s1) \<and>
               token AND 0x0f = END_DOCUMENT \<and> token AND 0xf0 = TYPE_NULL \<and>
               st' = st\<lparr>stream := s1\<rparr>)"
  proof
    assume br: "read_iteration mr st = Inr (Break st')"
    with B obtain token s1 where
      rb: "read_byte (stream st) = Inr (token, s1)" and
      pt: "process_token mr token (st\<lparr>stream := s1\<rparr>) = Inr (Break st')"
      by (auto simp: read_iteration_def split: sum.splits)
    from process_token_Break [OF pt] rb
    show "\<exists>token s1. read_byte (stream st) = Inr (token, s1) \<and>
               token AND 0x0f = END_DOCUMENT \<and> token AND 0xf0 = TYPE_NULL \<and>
               st' = st\<lparr>stream := s1\<rparr>"
      by auto
  qed
  have D: "length file \<le> pos (stream st) \<longrightarrow>
            read_iteration mr st = Inl (RuntimeError ''Could not read byte'') \<and>
            read_loop mr (init_state mr s) = Inl (RuntimeError ''Could not read byte'') \<and>
            read mr file = Inl (RuntimeError ''Could not read byte'')"
  proof
    assume "length file \<le> pos (stream st)"
    with g have "read_byte (stream st) = Inl (RuntimeError ''Could not read byte'')"
      by (simp add: read_byte_at_end)
    with B have it: "read_iteration mr st = Inl (RuntimeError ''Could not read byte'')"
      by (simp add: read_iteration_def)
    then have lp: "read_loop mr (init_state mr s) = Inl (RuntimeError ''Could not read byte'')"
      using read_loop_from_reaches [OF assms(2)] read_loop_Inl by simp
    with it read_Inl [OF assms(1) lp]
    show "read_iteration mr st = Inl (RuntimeError ''Could not read byte'') \<and>
            read_loop mr (init_state mr s) = Inl (RuntimeError ''Could not read byte'') \<and>
            read mr file = Inl (RuntimeError ''Could not read byte'')"
      by simp
  qed
  from A B C D show ?thesis
    by (intro conjI)
qed


text \<open>
  A file that ends after the end-tag of its only element: start-document, start-tag and
  end-tag of \<open>a\<close>, and no end-document token.
\<close>

definition no_end_document_file :: "byte list" where
  "no_end_document_file = [0x41, 0x42, 0x58, 0x00, 0x10, 0x32, 0xFF, 0xFF, 0x00, 0x01, 0x61,
     0x33, 0x00, 0x00]"

definition no_end_document_at :: "nat \<Rightarrow> istream" where
  "no_end_document_at n = \<lparr>data = no_end_document_file, pos = n, eofbit = False, failbit = False\<rparr>"

definition no_end_document_single :: "nat \<Rightarrow> reader_state" where
  "no_end_document_single n =
     (let st = init_state False (no_end_document_at n)
      in if n < 11 then st
         else if n < 14 then
           st\<lparr>interned_strings := [''a''], store := [new_XMLElement ''a''],
              element_stack := [0], root := Some 0\<rparr>
         else
           st\<lparr>interned_strings := [''a''], store := [new_XMLElement ''a''],
              root_closed := True, root := Some 0\<rparr>)"

lemmas no_end_document_eval =
  no_end_document_file_def no_end_document_at_def no_end_document_single_def

theorem eof_test_never_ends_the_loop_witness:
  "read_prologue no_end_document_file = Inr (no_end_document_at 4) \<and>
   reaches False (init_state False (no_end_document_at 4)) (no_end_document_single 14) \<and>
   pos (stream (no_end_document_single 14)) = length no_end_document_file \<and>
   element_stack (no_end_document_single 14) = [] \<and>
   root (no_end_document_single 14) = Some 0 \<and>
   \<not> eof (stream (no_end_document_single 14)) \<and>
   read_iteration False (no_end_document_single 14) = Inl (RuntimeError ''Could not read byte'') \<and>
   read False no_end_document_file = Inl (RuntimeError ''Could not read byte'') \<and>
   read_iteration False (siblings_single 23) = Inr (Break (siblings_single 24)) \<and>
   read_byte (stream (siblings_single 23)) = Inr (0x11, siblings_at 24)"
proof -
  let ?init = "init_state False (no_end_document_at 4)"
  have pro: "read_prologue no_end_document_file = Inr (no_end_document_at 4)"
    by (simp add: prologue_eval no_end_document_eval)
  have turns: "read_iteration False (no_end_document_single 4) = Inr (Continue (no_end_document_single 5))"
    "read_iteration False (no_end_document_single 5) = Inr (Continue (no_end_document_single 11))"
    "read_iteration False (no_end_document_single 11) = Inr (Continue (no_end_document_single 14))"
    by (simp_all add: decode_eval no_end_document_eval)
  have i: "no_end_document_single 4 = ?init"
    by (simp add: no_end_document_single_def)
  have r: "reaches False ?init (no_end_document_single 14)"
    unfolding i [symmetric]
    by (intro reaches_turn [OF _ turns(3)] reaches_turn [OF _ turns(2)]
        reaches_turn [OF _ turns(1)] reaches_start)
  have st: "pos (stream (no_end_document_single 14)) = length no_end_document_file"
    "element_stack (no_end_document_single 14) = []" "root (no_end_document_single 14) = Some 0"
    by (simp_all add: no_end_document_eval init_state_def)
  have a: "\<not> eof (stream (no_end_document_single 14)) \<and>
      read_iteration False (no_end_document_single 14) = Inl (RuntimeError ''Could not read byte'') \<and>
      read False no_end_document_file = Inl (RuntimeError ''Could not read byte'')"
    using eof_test_never_ends_the_loop [OF pro r] st(1) by simp
  have b: "read_byte (stream (siblings_single 23)) = Inr (0x11, siblings_at 24)"
    by (simp add: read_byte_def istream_read_def siblings_eval siblings_single_def init_state_def)
  from pro r st a b siblings_single_end show ?thesis
    by simp
qed

section \<open>Tokens of an unknown kind\<close>

lemma process_token_unknown:
  assumes "token AND 0x0f \<noteq> START_DOCUMENT" "token AND 0x0f \<noteq> END_DOCUMENT"
    "token AND 0x0f \<noteq> START_TAG" "token AND 0x0f \<noteq> END_TAG" "token AND 0x0f \<noteq> TEXT"
    "token AND 0x0f \<noteq> ATTRIBUTE"
  shows "process_token mr token st = on_unknown (token AND 0xf0) st"
  using assms by (simp add: process_token_def)

text \<open>
  Claim C5. A token whose kind is none of start-document, end-document, start-tag, end-tag,
  text and attribute is skipped by its type tag. The source tests \<^verbatim>\<open>data_type != 0\<close>, and
  the null type tag is \<open>0x10\<close>: a token with type tag zero is the no-op, and a token with the
  null type tag falls to the default of the switch and fails with \<open>Unexpected XML type\<close>. The
  int type consumes four bytes, the string and interned-string types consume a
  length-prefixed string, neither touches the tree or the intern table, and every other type
  tag fails with \<open>Unexpected XML type\<close>.
\<close>

theorem unknown_kind_with_null_type_fails:
  assumes "token AND 0x0f \<noteq> START_DOCUMENT" "token AND 0x0f \<noteq> END_DOCUMENT"
    "token AND 0x0f \<noteq> START_TAG" "token AND 0x0f \<noteq> END_TAG" "token AND 0x0f \<noteq> TEXT"
    "token AND 0x0f \<noteq> ATTRIBUTE"
  shows "(token AND 0xf0 = TYPE_NULL \<longrightarrow>
            process_token mr token st = Inl (AbxDecodeError ''Unexpected XML type'')) \<and>
         (token AND 0xf0 = 0 \<longrightarrow> process_token mr token st = Inr (Continue st)) \<and>
         (token AND 0xf0 = TYPE_INT \<and> read_int (stream st) = Inr (v, s') \<longrightarrow>
            process_token mr token st = Inr (Continue (st\<lparr>stream := s'\<rparr>))) \<and>
         ((token AND 0xf0 = TYPE_STRING \<or> token AND 0xf0 = TYPE_STRING_INTERNED) \<and>
            read_string_raw (stream st) = Inr (str, s'') \<longrightarrow>
            process_token mr token st = Inr (Continue (st\<lparr>stream := s''\<rparr>))) \<and>
         (token AND 0xf0 \<noteq> 0 \<and> token AND 0xf0 \<noteq> TYPE_INT \<and> token AND 0xf0 \<noteq> TYPE_STRING \<and>
            token AND 0xf0 \<noteq> TYPE_STRING_INTERNED \<longrightarrow>
            process_token mr token st = Inl (AbxDecodeError ''Unexpected XML type''))"
  unfolding process_token_unknown [OF assms]
  by (auto simp: on_unknown_def)

text \<open>
  A file with a token of kind 9 and the null type tag between the start-document token and
  the start-tag of its only element.
\<close>

definition null_comment_file :: "byte list" where
  "null_comment_file = [0x41, 0x42, 0x58, 0x00, 0x10, 0x19, 0x32, 0xFF, 0xFF, 0x00, 0x01, 0x61,
     0x33, 0x00, 0x00, 0x11]"

definition null_comment_at :: "nat \<Rightarrow> istream" where
  "null_comment_at n = \<lparr>data = null_comment_file, pos = n, eofbit = False, failbit = False\<rparr>"

theorem unknown_kind_with_null_type_fails_witness:
  "(0x19 :: byte) AND 0x0f = 9 \<and> (0x19 :: byte) AND 0xf0 = TYPE_NULL \<and>
   read_prologue null_comment_file = Inr (null_comment_at 4) \<and>
   read_byte (null_comment_at 5) = Inr (0x19, null_comment_at 6) \<and>
   process_token False 0x19 (init_state False (null_comment_at 6)) =
     Inl (AbxDecodeError ''Unexpected XML type'') \<and>
   read False null_comment_file = Inl (AbxDecodeError ''Unexpected XML type'') \<and>
   read True null_comment_file = Inl (AbxDecodeError ''Unexpected XML type'') \<and>
   process_token False 0x09 (init_state False (null_comment_at 6)) =
     Inr (Continue (init_state False (null_comment_at 6)))"
proof -
  have k: "(0x19 :: byte) AND 0x0f = 9" "(0x19 :: byte) AND 0xf0 = TYPE_NULL"
    "(0x09 :: byte) AND 0x0f = 9" "(0x09 :: byte) AND 0xf0 = 0"
    by simp_all
  have pro: "read_prologue null_comment_file = Inr (null_comment_at 4)"
    by (simp add: prologue_eval null_comment_file_def null_comment_at_def)
  have rb: "read_byte (null_comment_at 5) = Inr (0x19, null_comment_at 6)"
    by (simp add: read_byte_def istream_read_def null_comment_file_def null_comment_at_def)
  have t1: "read_iteration mr (init_state mr (null_comment_at 4)) =
      Inr (Continue (init_state mr (null_comment_at 5)))" for mr
    by (simp add: decode_eval null_comment_file_def null_comment_at_def)
  have pt: "process_token mr 0x19 (init_state mr (null_comment_at 6)) =
     Inl (AbxDecodeError ''Unexpected XML type'')" for mr
    using unknown_kind_with_null_type_fails [of "0x19" mr "init_state mr (null_comment_at 6)",
        THEN conjunct1] k
    by simp
  have st: "stream (init_state mr s) = s"
    "(init_state mr s)\<lparr>stream := s'\<rparr> = init_state mr s'" for mr s s'
    by (simp_all add: init_state_def Let_def)
  have t2: "read_iteration mr (init_state mr (null_comment_at 5)) =
      Inl (AbxDecodeError ''Unexpected XML type'')" for mr
    using read_iteration_token [of "init_state mr (null_comment_at 5)" "0x19" "null_comment_at 6" mr]
      rb pt [of mr]
    by (simp add: st)
  have noop: "process_token False 0x09 (init_state False (null_comment_at 6)) =
     Inr (Continue (init_state False (null_comment_at 6)))"
    using unknown_kind_with_null_type_fails [of "0x09" False "init_state False (null_comment_at 6)",
        THEN conjunct2, THEN conjunct1] k
    by simp
  from k(1,2) pro rb pt [of False] read_two_turns [OF pro t1 t2] noop show ?thesis
    by simp
qed

end
